theory Spec2Isabelle
  imports Main
begin

section \<open>Findings and reports\<close>

text \<open>
  \<^verbatim>\<open>Finding\<close> is a dataclass of three strings; the severity is a plain string
  (\<^verbatim>\<open>ERROR | WARN | INFO\<close> by convention only).  \<^verbatim>\<open>Report\<close> owns a name and the list
  of findings; \<^verbatim>\<open>add\<close> appends at the end, and \<^verbatim>\<open>errors\<close> and \<^verbatim>\<open>warnings\<close> are recomputed
  from the list on every access.
\<close>

record Finding =
  severity :: string
  message :: string
  location :: string

record Report =
  name :: string
  findings :: "Finding list"

definition add :: "string \<Rightarrow> string \<Rightarrow> string \<Rightarrow> Report \<Rightarrow> Report" where
  "add sev msg loc r =
     r\<lparr>findings := findings r @ [\<lparr>severity = sev, message = msg, location = loc\<rparr>]\<rparr>"

definition error :: "string \<Rightarrow> string \<Rightarrow> Report \<Rightarrow> Report" where
  "error msg loc r = add ''ERROR'' msg loc r"

definition warn :: "string \<Rightarrow> string \<Rightarrow> Report \<Rightarrow> Report" where
  "warn msg loc r = add ''WARN'' msg loc r"

definition info :: "string \<Rightarrow> string \<Rightarrow> Report \<Rightarrow> Report" where
  "info msg loc r = add ''INFO'' msg loc r"

definition errors :: "Report \<Rightarrow> nat" where
  "errors r = length (filter (\<lambda>f. severity f = ''ERROR'') (findings r))"

definition warnings :: "Report \<Rightarrow> nat" where
  "warnings r = length (filter (\<lambda>f. severity f = ''WARN'') (findings r))"

text \<open>A call of one of the three appending methods, and a sequence of such calls.\<close>

datatype append_call = CallError string string | CallWarn string string | CallInfo string string

fun run_call :: "append_call \<Rightarrow> Report \<Rightarrow> Report" where
  "run_call (CallError msg loc) r = error msg loc r"
| "run_call (CallWarn msg loc) r = warn msg loc r"
| "run_call (CallInfo msg loc) r = info msg loc r"

fun run_calls :: "append_call list \<Rightarrow> Report \<Rightarrow> Report" where
  "run_calls [] r = r"
| "run_calls (c # cs) r = run_calls cs (run_call c r)"

fun call_finding :: "append_call \<Rightarrow> Finding" where
  "call_finding (CallError msg loc) = \<lparr>severity = ''ERROR'', message = msg, location = loc\<rparr>"
| "call_finding (CallWarn msg loc) = \<lparr>severity = ''WARN'', message = msg, location = loc\<rparr>"
| "call_finding (CallInfo msg loc) = \<lparr>severity = ''INFO'', message = msg, location = loc\<rparr>"

fun is_error_call :: "append_call \<Rightarrow> bool" where
  "is_error_call (CallError _ _) = True"
| "is_error_call _ = False"

fun is_warn_call :: "append_call \<Rightarrow> bool" where
  "is_warn_call (CallWarn _ _) = True"
| "is_warn_call _ = False"

subsection \<open>Properties of the report\<close>

lemma run_call_findings: "findings (run_call c r) = findings r @ [call_finding c]"
  by (cases c) (simp_all add: error_def warn_def info_def add_def)

lemma run_call_name: "name (run_call c r) = name r"
  by (cases c) (simp_all add: error_def warn_def info_def add_def)

lemma run_calls_findings: "findings (run_calls cs r) = findings r @ map call_finding cs"
  by (induction cs arbitrary: r) (simp_all add: run_call_findings)

lemma call_finding_error: "(severity (call_finding c) = ''ERROR'') = is_error_call c"
  by (cases c) simp_all

lemma call_finding_warn: "(severity (call_finding c) = ''WARN'') = is_warn_call c"
  by (cases c) simp_all

text \<open>
  Claim C9.  After any finite sequence of \<^verbatim>\<open>error\<close>/\<^verbatim>\<open>warn\<close>/\<^verbatim>\<open>info\<close> calls on any report,
  the findings are the old findings followed by one finding per call, in call order (so
  nothing is removed or reordered and the length never drops); \<^verbatim>\<open>errors\<close> is the old count
  plus the number of \<^verbatim>\<open>error\<close> calls and \<^verbatim>\<open>warnings\<close> the old count plus the number of
  \<^verbatim>\<open>warn\<close> calls, so \<^verbatim>\<open>info\<close> calls count toward neither; and both accessors are the
  number of findings of severity ERROR, respectively WARN.
\<close>

theorem report_counts_and_growth:
  "findings (run_calls cs r) = findings r @ map call_finding cs
   \<and> length (findings r) \<le> length (findings (run_calls cs r))
   \<and> errors (run_calls cs r) = errors r + length (filter is_error_call cs)
   \<and> warnings (run_calls cs r) = warnings r + length (filter is_warn_call cs)
   \<and> errors (run_calls cs r)
       = card {i. i < length (findings (run_calls cs r))
                  \<and> severity (findings (run_calls cs r) ! i) = ''ERROR''}
   \<and> warnings (run_calls cs r)
       = card {i. i < length (findings (run_calls cs r))
                  \<and> severity (findings (run_calls cs r) ! i) = ''WARN''}"
proof -
  have grow: "findings (run_calls cs r) = findings r @ map call_finding cs"
    by (rule run_calls_findings)
  have e: "errors (run_calls cs r) = errors r + length (filter is_error_call cs)"
    by (simp add: grow errors_def filter_map o_def call_finding_error)
  have w: "warnings (run_calls cs r) = warnings r + length (filter is_warn_call cs)"
    by (simp add: grow warnings_def filter_map o_def call_finding_warn)
  have ec: "errors r' = card {i. i < length (findings r') \<and> severity (findings r' ! i) = ''ERROR''}"
    for r'
    by (simp add: errors_def length_filter_conv_card)
  have wc: "warnings r' = card {i. i < length (findings r') \<and> severity (findings r' ! i) = ''WARN''}"
    for r'
    by (simp add: warnings_def length_filter_conv_card)
  have len: "length (findings r) \<le> length (findings (run_calls cs r))"
    by (simp add: grow)
  from grow len e w ec [of "run_calls cs r"] wc [of "run_calls cs r"] show ?thesis
    by blast
qed

section \<open>The dependency graph and the cycle detector\<close>

text \<open>
  \<^verbatim>\<open>detect_cycle(nodes, edges)\<close> keeps two dictionaries, \<^verbatim>\<open>state\<close> (0 unseen, 1 visiting,
  2 done) and \<^verbatim>\<open>parent\<close>, which the nested \<^verbatim>\<open>dfs\<close> mutates.  The edge dictionary is
  an association list read through \<^verbatim>\<open>edges.get(node, [])\<close>; the two local dictionaries are
  maps threaded through the calls.  The \<^verbatim>\<open>while\<close> loop that walks the parent chain has
  no bound of its own, so it is a partial function whose value \<open>None\<close> stands for a walk
  that never ends.

  \<^verbatim>\<open>dfs\<close> is a recursive Python function: every nested call takes a frame of the
  interpreter's stack, and a call made when no frame is left raises \<^verbatim>\<open>RecursionError\<close>,
  which nothing in the program catches.  The first argument of \<open>dfs\<close> is the number of
  frames left for the call and the calls nested in it: the interpreter's recursion limit
  (1000 unless changed; the program does not change it) less the depth of the stack at
  the call.  An outcome is a returned value, a raised exception, or no return at all; an
  exception of a class the program itself never raises is \<open>OtherError\<close> with the name of
  its class and its message.
\<close>

datatype py_error =
    KeyError string
  | TypeError string
  | ValueError string
  | OSError string
  | RecursionError
  | OtherError string string

datatype 'a outcome = Returns 'a | Raises py_error | Diverges

type_synonym edges = "(string \<times> string list) list"

record dstate =
  state :: "string \<rightharpoonup> int"
  parent :: "string \<rightharpoonup> string"

definition edges_get :: "edges \<Rightarrow> string \<Rightarrow> string list" where
  "edges_get E n = (case map_of E n of None \<Rightarrow> [] | Some ys \<Rightarrow> ys)"

definition state_get :: "dstate \<Rightarrow> string \<Rightarrow> int" where
  "state_get s n = (case state s n of None \<Rightarrow> 0 | Some v \<Rightarrow> v)"

partial_function (option) chain_while ::
  "(string \<rightharpoonup> string) \<Rightarrow> string \<Rightarrow> string \<Rightarrow> string list \<Rightarrow> string list option" where
  "chain_while par nxt cur chain =
     (if cur \<noteq> nxt then
        (case par cur of
           None \<Rightarrow> Some chain
         | Some p \<Rightarrow> chain_while par nxt p (chain @ [cur]))
      else Some chain)"

declare chain_while.simps [code]

definition build_chain :: "(string \<rightharpoonup> string) \<Rightarrow> string \<Rightarrow> string \<Rightarrow> string list option" where
  "build_chain par node nxt =
     (case chain_while par nxt node [nxt] of
        None \<Rightarrow> None
      | Some chain \<Rightarrow> Some (rev (chain @ [nxt])))"

fun truthy :: "string list option \<Rightarrow> bool" where
  "truthy None = False"
| "truthy (Some c) = (c \<noteq> [])"

function dfs :: "nat \<Rightarrow> edges \<Rightarrow> string \<Rightarrow> dstate \<Rightarrow> (string list option \<times> dstate) outcome"
  and dfs_for ::
    "nat \<Rightarrow> edges \<Rightarrow> string \<Rightarrow> string list \<Rightarrow> dstate \<Rightarrow> (string list option \<times> dstate) outcome"
  where
  "dfs 0 E node s = Raises RecursionError"
| "dfs (Suc frames) E node s =
     dfs_for frames E node (edges_get E node) (s\<lparr>state := (state s)(node \<mapsto> 1)\<rparr>)"
| "dfs_for frames E node [] s = Returns (None, s\<lparr>state := (state s)(node \<mapsto> 2)\<rparr>)"
| "dfs_for frames E node (nxt # rest) s =
     (if state_get s nxt = 0 then
        (case dfs frames E nxt (s\<lparr>parent := (parent s)(nxt \<mapsto> node)\<rparr>) of
           Returns (cycle, s') \<Rightarrow>
             if truthy cycle then Returns (cycle, s') else dfs_for frames E node rest s'
         | Raises e \<Rightarrow> Raises e
         | Diverges \<Rightarrow> Diverges)
      else if state_get s nxt = 1 then
        (case build_chain (parent s) node nxt of
           None \<Rightarrow> Diverges
         | Some chain \<Rightarrow> Returns (Some chain, s))
      else dfs_for frames E node rest s)"
  by pat_completeness auto

definition dfs_measure ::
  "nat \<times> edges \<times> string \<times> dstate + nat \<times> edges \<times> string \<times> string list \<times> dstate \<Rightarrow> nat \<times> nat" where
  "dfs_measure x =
     (case x of
        Inl (frames, E, node, s) \<Rightarrow> (2 * frames, 0)
      | Inr (frames, E, node, todo, s) \<Rightarrow> (2 * frames + 1, length todo))"

termination dfs
  by (relation "inv_image (less_than <*lex*> less_than) dfs_measure")
    (auto simp: dfs_measure_def intro: wf_inv_image)



subsection \<open>Invariants of the depth-first search\<close>

text \<open>
  The nodes in state 1 are the nodes of the recursion stack, a path in which every node
  is recorded as the parent of the next (\<open>dfs_inv\<close>).  A node in state 2 has all its
  successors in state 2 and lies on no cycle (\<open>black_inv\<close>).  A call that returns
  \<^verbatim>\<open>None\<close> leaves its node in state 2, changes no other node to or from state 1, and
  keeps the parents of the nodes already seen (\<open>dfs_post\<close>).
\<close>

definition edge_rel :: "edges \<Rightarrow> (string \<times> string) set" where
  "edge_rel E = {(a, b). b \<in> set (edges_get E a)}"

definition is_edge :: "edges \<Rightarrow> string \<Rightarrow> string \<Rightarrow> bool" where
  "is_edge E a b = (b \<in> set (edges_get E a))"

definition closed_walk :: "edges \<Rightarrow> string list \<Rightarrow> bool" where
  "closed_walk E c = (2 \<le> length c \<and> hd c = last c \<and> successively (is_edge E) c)"






definition found :: "edges \<Rightarrow> string \<Rightarrow> string list \<Rightarrow> bool" where
  "found E root c = (closed_walk E c \<and> (\<forall>x \<in> set c. (root, x) \<in> (edge_rel E)\<^sup>*))"

lemma state_get_state_update [simp]:
  "state_get (s\<lparr>state := (state s)(n \<mapsto> v)\<rparr>) x = (if x = n then v else state_get s x)"
  by (simp add: state_get_def)

lemma state_get_parent_update [simp]: "state_get (s\<lparr>parent := p\<rparr>) x = state_get s x"
  by (simp add: state_get_def)



























subsection \<open>The outer loop\<close>

text \<open>
  \<^verbatim>\<open>detect_cycle\<close> itself: the initial dictionaries, and the loop over the nodes, where
  \<^verbatim>\<open>state[node]\<close> raises \<^verbatim>\<open>KeyError\<close> on an absent key.  Its first argument is the number
  of frames left for the calls of \<^verbatim>\<open>dfs\<close> it makes.
\<close>

definition init_state :: "string list \<Rightarrow> dstate" where
  "init_state nodes = \<lparr>state = foldl (\<lambda>m n. m(n \<mapsto> 0)) Map.empty nodes, parent = Map.empty\<rparr>"

fun detect_for :: "nat \<Rightarrow> edges \<Rightarrow> string list \<Rightarrow> dstate \<Rightarrow> string list option outcome" where
  "detect_for frames E [] s = Returns None"
| "detect_for frames E (node # rest) s =
     (case state s node of
        None \<Rightarrow> Raises (KeyError node)
      | Some v \<Rightarrow>
          if v = 0 then
            (case dfs frames E node s of
               Returns (cycle, s') \<Rightarrow>
                 if truthy cycle then Returns cycle else detect_for frames E rest s'
             | Raises e \<Rightarrow> Raises e
             | Diverges \<Rightarrow> Diverges)
          else detect_for frames E rest s)"

definition detect_cycle :: "nat \<Rightarrow> string list \<Rightarrow> edges \<Rightarrow> string list option outcome" where
  "detect_cycle frames nodes E = detect_for frames E nodes (init_state nodes)"

lemma foldl_init: "foldl (\<lambda>m n. m(n \<mapsto> 0::int)) m0 nodes x = (if x \<in> set nodes then Some 0 else m0 x)"
  by (induction nodes arbitrary: m0) auto

lemma init_state_get [simp]: "state_get (init_state nodes) x = 0"
  by (simp add: init_state_def state_get_def foldl_init)









subsection \<open>What the detector returns\<close>













subsection \<open>Graphs deeper than the stack\<close>

text \<open>
  A family of graphs to run the detector on.  \<open>chain_node i\<close> is the letter \<^verbatim>\<open>n\<close> written
  \<open>i + 1\<close> times; \<open>chain_edges n\<close> links each of the nodes \<open>0, \<dots>, n - 1\<close> to the next one,
  and \<open>ring_edges n\<close> adds the edge from node \<open>n\<close> back to node \<open>0\<close>.  The search enters the
  nodes one inside the other, and the call on the node after the last free frame raises.
\<close>

definition chain_node :: "nat \<Rightarrow> string" where
  "chain_node i = replicate (Suc i) CHR ''n''"




lemma chain_node_eq [simp]: "(chain_node i = chain_node j) = (i = j)"
proof
  assume "chain_node i = chain_node j"
  then have "length (chain_node i) = length (chain_node j)" by simp
  then show "i = j" by (simp add: chain_node_def)
qed simp













subsection \<open>The claims on the detector\<close>












section \<open>The field extractor\<close>

text \<open>
  \<^verbatim>\<open>extract_field\<close> compiles
  \<^verbatim>\<open>^\s*\*\*{re.escape(field_name)}:\*\*\s*(.*)\s*$\<close> with \<^verbatim>\<open>re.IGNORECASE\<close>
  and returns \<^verbatim>\<open>group(1).strip()\<close> of the first line that \<^verbatim>\<open>match\<close>es.  Strings are lists of
  characters with code points below 256.  On these, \<^verbatim>\<open>\s\<close> and \<^verbatim>\<open>strip\<close> use the same
  whitespace test (\<^verbatim>\<open>str.isspace\<close>), \<^verbatim>\<open>.\<close> is every character but the line feed, \<^verbatim>\<open>$\<close> is
  the end of the string or the position before a final line feed, and a literal matches a
  character with the same lower case.  The pattern is a list of atoms run by a backtracking
  matcher that tries the longest repetition first, as the \<^verbatim>\<open>re\<close> module does; the last
  argument accumulates the text of the group.
\<close>

definition isspace :: "char \<Rightarrow> bool" where
  "isspace c = ((of_char c :: nat) \<in> {9, 10, 11, 12, 13, 28, 29, 30, 31, 32, 133, 160})"

definition lower_char :: "char \<Rightarrow> char" where
  "lower_char c =
     (let n = (of_char c :: nat) in
      if (65 \<le> n \<and> n \<le> 90) \<or> (192 \<le> n \<and> n \<le> 222 \<and> n \<noteq> 215)
      then char_of (n + 32) else c)"

definition newline :: char where
  "newline = CHR 0x0A"

definition strip :: "string \<Rightarrow> string" where
  "strip s = rev (dropWhile isspace (rev (dropWhile isspace s)))"

datatype atom = Lit char | SpaceStar | GroupDotStar | EndAnchor

fun rx :: "atom list \<Rightarrow> string \<Rightarrow> string \<Rightarrow> string option" where
  "rx [] s g = Some g"
| "rx (Lit c # p) [] g = None"
| "rx (Lit c # p) (d # s) g = (if lower_char d = lower_char c then rx p s g else None)"
| "rx (SpaceStar # p) [] g = rx p [] g"
| "rx (SpaceStar # p) (d # s) g =
     (if isspace d then
        (case rx (SpaceStar # p) s g of Some r \<Rightarrow> Some r | None \<Rightarrow> rx p (d # s) g)
      else rx p (d # s) g)"
| "rx (GroupDotStar # p) [] g = rx p [] g"
| "rx (GroupDotStar # p) (d # s) g =
     (if d \<noteq> newline then
        (case rx (GroupDotStar # p) s (g @ [d]) of Some r \<Rightarrow> Some r | None \<Rightarrow> rx p (d # s) g)
      else rx p (d # s) g)"
| "rx (EndAnchor # p) s g = (if s = [] \<or> s = [newline] then rx p s g else None)"

definition field_re :: "string \<Rightarrow> atom list" where
  "field_re field_name =
     [SpaceStar] @ map Lit (''**'' @ field_name @ '':**'')
     @ [SpaceStar, GroupDotStar, SpaceStar, EndAnchor]"

fun extract_field :: "string list \<Rightarrow> string \<Rightarrow> string" where
  "extract_field [] field_name = []"
| "extract_field (line # block) field_name =
     (case rx (field_re field_name) line [] of
        Some g \<Rightarrow> strip g
      | None \<Rightarrow> extract_field block field_name)"

subsection \<open>What the pattern matches\<close>

lemma isspace_newline [simp]: "isspace newline"
  by (simp add: isspace_def newline_def)

lemma of_char_lower:
  "(of_char (lower_char c) :: nat) =
     (if (65 \<le> (of_char c :: nat) \<and> (of_char c :: nat) \<le> 90)
         \<or> (192 \<le> (of_char c :: nat) \<and> (of_char c :: nat) \<le> 222 \<and> (of_char c :: nat) \<noteq> 215)
      then of_char c + 32 else of_char c)"
  by (auto simp: lower_char_def Let_def)

lemma lower_star: "lower_char d = lower_char CHR ''*'' \<Longrightarrow> d = CHR ''*''"
proof -
  assume "lower_char d = lower_char CHR ''*''"
  then have "(of_char (lower_char d) :: nat) = of_char (lower_char CHR ''*'')" by simp
  then have "(of_char d :: nat) = 42"
    by (simp add: of_char_lower split: if_splits)
  then have "(of_char d :: nat) = of_char CHR ''*''" by simp
  then show ?thesis by (simp only: of_char_eq_iff)
qed

lemma star_not_space: "lower_char d = lower_char CHR ''*'' \<Longrightarrow> \<not> isspace d"
  by (drule lower_star) (simp add: isspace_def)

lemma rx_end: "rx [EndAnchor] s g = (if s = [] \<or> s = [newline] then Some g else None)"
  by simp

lemma rx_space_end:
  "rx [SpaceStar, EndAnchor] s g = (if \<forall>c \<in> set s. isspace c then Some g else None)"
proof (induction s)
  case Nil
  show ?case by simp
next
  case (Cons d s)
  show ?case
  proof (cases "isspace d")
    case True
    show ?thesis
    proof (cases "\<forall>c \<in> set s. isspace c")
      case all: True
      with True Cons.IH show ?thesis by simp
    next
      case False
      then have "s \<noteq> []" by auto
      with True False Cons.IH show ?thesis by simp
    qed
  next
    case False
    then have "d \<noteq> newline" by auto
    with False show ?thesis by auto
  qed
qed

lemma rx_group:
  "rx [GroupDotStar, SpaceStar, EndAnchor] s g =
     (if \<forall>c \<in> set (dropWhile (\<lambda>c. c \<noteq> newline) s). isspace c
      then Some (g @ takeWhile (\<lambda>c. c \<noteq> newline) s) else None)"
proof (induction s arbitrary: g)
  case Nil
  show ?case by simp
next
  case (Cons d s)
  show ?case
  proof (cases "d = newline")
    case True
    then show ?thesis by (simp add: rx_space_end)
  next
    case False
    show ?thesis
    proof (cases "\<forall>c \<in> set (dropWhile (\<lambda>c. c \<noteq> newline) s). isspace c")
      case True
      with False Cons.IH [of "g @ [d]"] show ?thesis by simp
    next
      case nall: False
      then have "\<not> (\<forall>c \<in> set s. isspace c)" by (meson set_dropWhileD)
      then have "rx [SpaceStar, EndAnchor] (d # s) g = None"
        by (subst rx_space_end) auto
      with False nall Cons.IH [of "g @ [d]"] show ?thesis by simp
    qed
  qed
qed

lemma dropWhile_suffix_set:
  "set (dropWhile P (dropWhile Q xs)) \<subseteq> set (dropWhile P xs)"
proof -
  have "set (dropWhile P b) \<subseteq> set (dropWhile P (a @ b))" for a b
    by (induction a) (auto dest: set_dropWhileD)
  from this [of "dropWhile Q xs" "takeWhile Q xs"] show ?thesis by simp
qed

text \<open>
  The tail \<^verbatim>\<open>\s*(.*)\s*$\<close> on the rest of a line, in closed form: skip the leading
  whitespace, take everything up to the first line feed as the group, and succeed when
  only whitespace is left.
\<close>

definition value_of :: "string \<Rightarrow> string option" where
  "value_of s =
     (let s1 = dropWhile isspace s in
      if \<forall>c \<in> set (dropWhile (\<lambda>c. c \<noteq> newline) s1). isspace c
      then Some (takeWhile (\<lambda>c. c \<noteq> newline) s1) else None)"

lemma rx_space_group:
  "rx [SpaceStar, GroupDotStar, SpaceStar, EndAnchor] s [] = value_of s"
proof (induction s)
  case Nil
  show ?case by (simp add: value_of_def)
next
  case (Cons d s)
  show ?case
  proof (cases "isspace d")
    case False
    then have "rx [SpaceStar, GroupDotStar, SpaceStar, EndAnchor] (d # s) []
        = rx [GroupDotStar, SpaceStar, EndAnchor] (d # s) []"
      by (simp only: rx.simps if_False)
    also have "\<dots> = value_of (d # s)"
      using False by (subst rx_group) (simp add: value_of_def)
    finally show ?thesis .
  next
    case True
    show ?thesis
    proof (cases "value_of s")
      case (Some r)
      with True Cons.IH show ?thesis by (simp add: value_of_def)
    next
      case None
      then have "\<not> (\<forall>c \<in> set (dropWhile (\<lambda>c. c \<noteq> newline) (dropWhile isspace s)). isspace c)"
        by (simp add: value_of_def Let_def split: if_splits)
      with dropWhile_suffix_set [of "\<lambda>c. c \<noteq> newline" isspace s]
      have a: "\<not> (\<forall>c \<in> set (dropWhile (\<lambda>c. c \<noteq> newline) s). isspace c)" by blast
      then have "\<not> (\<forall>c \<in> set (dropWhile (\<lambda>c. c \<noteq> newline) (d # s)). isspace c)"
        by (auto dest: set_dropWhileD)
      then have "rx [GroupDotStar, SpaceStar, EndAnchor] (d # s) [] = None"
        by (subst rx_group) simp
      moreover have "value_of (d # s) = None"
        using True None by (simp add: value_of_def)
      moreover have "rx [SpaceStar, GroupDotStar, SpaceStar, EndAnchor] (d # s) []
          = (case rx [SpaceStar, GroupDotStar, SpaceStar, EndAnchor] s [] of
               Some r \<Rightarrow> Some r
             | None \<Rightarrow> rx [GroupDotStar, SpaceStar, EndAnchor] (d # s) [])"
        using True by (simp only: rx.simps if_True)
      ultimately show ?thesis using None Cons.IH by simp
    qed
  qed
qed

lemma rx_lits:
  "rx (map Lit cs @ p) s g =
     (if length cs \<le> length s \<and> map lower_char (take (length cs) s) = map lower_char cs
      then rx p (drop (length cs) s) g else None)"
proof (induction cs arbitrary: s)
  case Nil
  show ?case by simp
next
  case (Cons c cs)
  show ?case
  proof (cases s)
    case Nil
    then show ?thesis by simp
  next
    case (Cons d s')
    with Cons.IH [of s'] show ?thesis by auto
  qed
qed

lemma rx_leading_space:
  assumes "\<And>d. lower_char d = lower_char c \<Longrightarrow> \<not> isspace d"
  shows "rx (SpaceStar # Lit c # p) s g = rx (Lit c # p) (dropWhile isspace s) g"
proof (induction s)
  case Nil
  show ?case by simp
next
  case (Cons d s)
  show ?case
  proof (cases "isspace d")
    case True
    with assms have "lower_char d \<noteq> lower_char c" by blast
    with True Cons.IH show ?thesis by (simp split: option.splits)
  next
    case False
    then show ?thesis by simp
  qed
qed

definition field_value :: "string \<Rightarrow> string \<Rightarrow> string option" where
  "field_value field_name line =
     (let s0 = dropWhile isspace line; lit = ''**'' @ field_name @ '':**'' in
      if length lit \<le> length s0 \<and> map lower_char (take (length lit) s0) = map lower_char lit
      then value_of (drop (length lit) s0) else None)"

lemma rx_field_re: "rx (field_re field_name) line [] = field_value field_name line"
proof -
  have "rx (field_re field_name) line []
        = rx (SpaceStar # Lit CHR ''*'' # (map Lit (''*'' @ field_name @ '':**'')
               @ [SpaceStar, GroupDotStar, SpaceStar, EndAnchor])) line []"
    by (simp add: field_re_def)
  also have "\<dots> = rx (map Lit (''**'' @ field_name @ '':**'')
               @ [SpaceStar, GroupDotStar, SpaceStar, EndAnchor]) (dropWhile isspace line) []"
    by (subst rx_leading_space [OF star_not_space]) simp_all
  also have "\<dots> = field_value field_name line"
    by (simp only: rx_lits rx_space_group field_value_def Let_def)
  finally show ?thesis .
qed

text \<open>
  The pattern in the words of the specification: optional leading whitespace, the
  bold-marked label with its colon (the label compared without regard to case), optional
  whitespace, a value (which, being on a line, holds no line feed), optional trailing
  whitespace.
\<close>

definition field_line :: "string \<Rightarrow> string \<Rightarrow> string \<Rightarrow> bool" where
  "field_line field_name line v =
     (\<exists>ws1 lab ws2 ws3.
        line = ws1 @ ''**'' @ lab @ '':**'' @ ws2 @ v @ ws3
        \<and> (\<forall>c \<in> set ws1. isspace c)
        \<and> map lower_char lab = map lower_char field_name
        \<and> (\<forall>c \<in> set ws2. isspace c)
        \<and> newline \<notin> set v
        \<and> (\<forall>c \<in> set ws3. isspace c))"

lemma lower_low:
  assumes "(of_char c :: nat) < 65" and "lower_char d = lower_char c"
  shows "d = c"
proof -
  from assms(2) have "(of_char (lower_char d) :: nat) = of_char (lower_char c)" by simp
  with assms(1) have "(of_char d :: nat) = of_char c"
    by (simp add: of_char_lower split: if_splits)
  then show ?thesis by (simp only: of_char_eq_iff)
qed

lemma map_lower_low:
  "map lower_char a = map lower_char lit \<Longrightarrow> \<forall>c \<in> set lit. (of_char c :: nat) < 65 \<Longrightarrow> a = lit"
proof (induction lit arbitrary: a)
  case Nil
  then show ?case by simp
next
  case (Cons c lit)
  then obtain d a' where a: "a = d # a'" by (cases a) auto
  with Cons.prems have "lower_char d = lower_char c" "map lower_char a' = map lower_char lit"
    by simp_all
  with Cons.prems(2) Cons.IH [of a'] a lower_low [of c d] show ?case by simp
qed

lemma strip_all_space:
  assumes "\<forall>c \<in> set s. isspace c"
  shows "strip s = []"
proof -
  from assms have "dropWhile isspace s = []" by (simp add: dropWhile_eq_Nil_conv)
  then show ?thesis unfolding strip_def by (simp only: rev.simps dropWhile.simps)
qed

lemma strip_dropWhile: "strip (dropWhile isspace v) = strip v"
  by (simp add: strip_def)

lemma strip_append_space:
  assumes "\<forall>c \<in> set w. isspace c"
  shows "strip (x @ w) = strip x"
proof (cases "\<forall>c \<in> set x. isspace c")
  case True
  with assms have "\<forall>c \<in> set (x @ w). isspace c" by auto
  with True show ?thesis by (simp only: strip_all_space)
next
  case False
  then obtain c where c: "c \<in> set x" "\<not> isspace c" by blast
  have "dropWhile isspace (x @ w) = dropWhile isspace x @ w"
    by (rule dropWhile_append1 [of c _ isspace, OF c(1) c(2)])
  moreover have "dropWhile isspace (rev w @ y) = dropWhile isspace y" for y
    by (rule dropWhile_append2) (use assms in simp)
  ultimately show ?thesis by (simp add: strip_def)
qed

lemma field_value_sound:
  assumes "field_value field_name line = Some g"
  shows "field_line field_name line g"
proof -
  define lit where "lit = ''**'' @ field_name @ '':**''"
  define s0 where "s0 = dropWhile isspace line"
  define r where "r = drop (length lit) s0"
  define s1 where "s1 = dropWhile isspace r"
  from assms have low: "map lower_char (take (length lit) s0) = map lower_char lit"
    and val: "value_of r = Some g"
    unfolding field_value_def Let_def lit_def s0_def r_def by (simp_all split: if_splits)
  from low have "map lower_char (take (length lit) s0)
      = map lower_char ''**'' @ map lower_char (field_name @ '':**'')"
    unfolding lit_def by (simp only: map_append)
  from map_eq_append_conv [THEN iffD1, OF this]
  obtain a q where t1: "take (length lit) s0 = a @ q"
    and a: "map lower_char a = map lower_char ''**''"
    and q: "map lower_char q = map lower_char field_name @ map lower_char '':**''"
    by (auto simp only: map_append)
  from map_eq_append_conv [THEN iffD1, OF q]
  obtain lab b where t2: "q = lab @ b"
    and lab: "map lower_char lab = map lower_char field_name"
    and b: "map lower_char b = map lower_char '':**''"
    by auto
  have a': "a = ''**''" by (rule map_lower_low [OF a]) simp
  have b': "b = '':**''" by (rule map_lower_low [OF b]) simp
  from val have g: "g = takeWhile (\<lambda>c. c \<noteq> newline) s1"
    and ws3: "\<forall>c \<in> set (dropWhile (\<lambda>c. c \<noteq> newline) s1). isspace c"
    unfolding value_of_def Let_def s1_def by (simp_all split: if_splits)
  have e1: "line = takeWhile isspace line @ s0" by (simp add: s0_def)
  have "take (length lit) s0 @ r = s0" unfolding r_def by (rule append_take_drop_id)
  with t1 t2 a' b' have e2: "s0 = ''**'' @ lab @ '':**'' @ r" by simp
  have e3: "r = takeWhile isspace r @ s1" by (simp add: s1_def)
  have e4: "s1 = g @ dropWhile (\<lambda>c. c \<noteq> newline) s1" by (simp add: g)
  have "line = takeWhile isspace line @ ''**'' @ lab @ '':**'' @ takeWhile isspace r
      @ g @ dropWhile (\<lambda>c. c \<noteq> newline) s1"
    using e1 e2 e3 e4 by metis
  moreover have "\<forall>c \<in> set (takeWhile isspace line). isspace c"
    by (auto dest: set_takeWhileD)
  moreover have "\<forall>c \<in> set (takeWhile isspace r). isspace c"
    by (auto dest: set_takeWhileD)
  moreover have "newline \<notin> set g"
    unfolding g by (auto dest: set_takeWhileD)
  ultimately show ?thesis
    unfolding field_line_def using lab ws3 by blast
qed

lemma value_of_complete:
  assumes ws2: "\<forall>c \<in> set ws2. isspace c" and v: "newline \<notin> set v"
    and ws3: "\<forall>c \<in> set ws3. isspace c"
  shows "\<exists>g. value_of (ws2 @ v @ ws3) = Some g \<and> strip g = strip v"
proof -
  have d: "dropWhile isspace (ws2 @ v @ ws3) = dropWhile isspace (v @ ws3)"
    by (rule dropWhile_append2) (use ws2 in simp)
  show ?thesis
  proof (cases "\<forall>c \<in> set v. isspace c")
    case True
    with ws2 ws3 have "dropWhile isspace (ws2 @ v @ ws3) = []"
      by (auto simp: dropWhile_eq_Nil_conv)
    then have "value_of (ws2 @ v @ ws3) = Some []"
      unfolding value_of_def Let_def by (simp only: dropWhile.simps takeWhile.simps) simp
    with True show ?thesis by (simp add: strip_all_space)
  next
    case False
    then obtain c where c: "c \<in> set v" "\<not> isspace c" by blast
    let ?v = "dropWhile isspace v"
    have d2: "dropWhile isspace (v @ ws3) = ?v @ ws3"
      by (rule dropWhile_append1 [of c _ isspace, OF c(1) c(2)])
    have nl: "\<And>x. x \<in> set ?v \<Longrightarrow> x \<noteq> newline"
      using v by (auto dest: set_dropWhileD)
    have t: "takeWhile (\<lambda>c. c \<noteq> newline) (?v @ ws3) = ?v @ takeWhile (\<lambda>c. c \<noteq> newline) ws3"
      by (rule takeWhile_append2) (rule nl)
    have r: "dropWhile (\<lambda>c. c \<noteq> newline) (?v @ ws3) = dropWhile (\<lambda>c. c \<noteq> newline) ws3"
      by (rule dropWhile_append2) (rule nl)
    have "\<forall>c \<in> set (dropWhile (\<lambda>c. c \<noteq> newline) ws3). isspace c"
      using ws3 by (auto dest: set_dropWhileD)
    then have "value_of (ws2 @ v @ ws3) = Some (?v @ takeWhile (\<lambda>c. c \<noteq> newline) ws3)"
      unfolding value_of_def Let_def d d2 t r by simp
    moreover have "strip (?v @ takeWhile (\<lambda>c. c \<noteq> newline) ws3) = strip ?v"
      by (rule strip_append_space) (use ws3 in \<open>auto dest: set_takeWhileD\<close>)
    ultimately show ?thesis by (simp add: strip_dropWhile)
  qed
qed

lemma field_value_complete:
  assumes "field_line field_name line v"
  shows "\<exists>g. field_value field_name line = Some g \<and> strip g = strip v"
proof -
  from assms obtain ws1 lab ws2 ws3 where line: "line = ws1 @ ''**'' @ lab @ '':**'' @ ws2 @ v @ ws3"
    and ws1: "\<forall>c \<in> set ws1. isspace c" and lab: "map lower_char lab = map lower_char field_name"
    and ws2: "\<forall>c \<in> set ws2. isspace c" and v: "newline \<notin> set v"
    and ws3: "\<forall>c \<in> set ws3. isspace c"
    unfolding field_line_def by blast
  let ?lit = "''**'' @ field_name @ '':**''"
  let ?l0 = "''**'' @ lab @ '':**''"
  from lab have ll: "length lab = length field_name" by (rule map_eq_imp_length_eq)
  have "dropWhile isspace (ws1 @ ?l0 @ ws2 @ v @ ws3) = dropWhile isspace (?l0 @ ws2 @ v @ ws3)"
    by (rule dropWhile_append2) (use ws1 in simp)
  also have "\<dots> = ?l0 @ ws2 @ v @ ws3" by (simp add: isspace_def)
  finally have s0: "dropWhile isspace line = ?l0 @ (ws2 @ v @ ws3)" by (simp add: line)
  have len: "length ?lit = length ?l0" using ll by simp
  have "field_value field_name line = value_of (ws2 @ v @ ws3)"
    unfolding field_value_def Let_def s0 len using lab by simp
  with value_of_complete [OF ws2 v ws3] show ?thesis by simp
qed

lemma extract_field_rx:
  "extract_field (line # block) field_name =
     (case field_value field_name line of Some g \<Rightarrow> strip g | None \<Rightarrow> extract_field block field_name)"
  by (simp add: rx_field_re)

lemma extract_field_absent:
  "\<forall>line \<in> set block. field_value field_name line = None \<Longrightarrow> extract_field block field_name = []"
  by (induction block) (simp_all add: rx_field_re)

lemma extract_field_first:
  "\<forall>l \<in> set pre. field_value field_name l = None \<Longrightarrow> field_value field_name line = Some g \<Longrightarrow>
   extract_field (pre @ line # post) field_name = strip g"
  by (induction pre) (simp_all add: rx_field_re)

definition no_field_line :: "string \<Rightarrow> string list \<Rightarrow> bool" where
  "no_field_line field_name block = (\<forall>line \<in> set block. \<forall>v. \<not> field_line field_name line v)"

lemma no_field_line_value:
  assumes "no_field_line field_name block" and "line \<in> set block"
  shows "field_value field_name line = None"
proof (cases "field_value field_name line")
  case None
  then show ?thesis .
next
  case (Some g)
  from field_value_sound [OF Some] assms show ?thesis by (auto simp: no_field_line_def)
qed

text \<open>
  Claim C8.  For every block and label: when no line has the shape \<open>field_line\<close>,
  \<^verbatim>\<open>extract_field\<close> returns the empty string; and when the first line of that shape
  carries the value \<open>v\<close>, it returns \<open>strip v\<close>, the value with its surrounding whitespace
  removed and nothing else changed.  The function is total: no line content makes it
  raise.
\<close>

theorem extract_field_first_match:
  "(no_field_line field_name block \<longrightarrow> extract_field block field_name = [])
   \<and> (no_field_line field_name pre \<and> field_line field_name line v
        \<longrightarrow> extract_field (pre @ line # post) field_name = strip v)"
proof (intro conjI impI)
  assume "no_field_line field_name block"
  then show "extract_field block field_name = []"
    by (intro extract_field_absent ballI no_field_line_value)
next
  assume a: "no_field_line field_name pre \<and> field_line field_name line v"
  then obtain g where g: "field_value field_name line = Some g" "strip g = strip v"
    using field_value_complete by blast
  from a have "\<forall>l \<in> set pre. field_value field_name l = None"
    by (blast intro: no_field_line_value)
  from extract_field_first [OF this g(1)] g(2)
  show "extract_field (pre @ line # post) field_name = strip v" by simp
qed

lemma field_value_none:
  assumes "field_value field_name line = None"
  shows "\<not> field_line field_name line v"
  using field_value_complete [of field_name line v] assms by auto

theorem extract_field_first_match_witness:
  "no_field_line ''Priority'' [''**Area:** backend'']
   \<and> field_line ''Priority'' ''  **priority:**    P1   '' ''P1''
   \<and> extract_field [''**Area:** backend'', ''  **priority:**    P1   ''] ''Priority'' = ''P1''
   \<and> extract_field [''**Area:** backend''] ''Priority'' = []"
proof -
  have "field_value ''Priority'' ''**Area:** backend'' = None"
    by (simp add: field_value_def isspace_def lower_char_def)
  then have a: "no_field_line ''Priority'' [''**Area:** backend'']"
    by (simp add: no_field_line_def field_value_none)
  have "''  **priority:**    P1   '' = ''  '' @ ''**'' @ ''priority'' @ '':**'' @ ''    '' @ ''P1'' @ ''   ''"
    by simp
  moreover have "map lower_char ''priority'' = map lower_char ''Priority''"
    by code_simp
  moreover have "\<forall>c \<in> set ''  ''. isspace c" "\<forall>c \<in> set ''    ''. isspace c"
    "\<forall>c \<in> set ''   ''. isspace c" "newline \<notin> set ''P1''"
    by (simp_all add: isspace_def newline_def)
  ultimately have b: "field_line ''Priority'' ''  **priority:**    P1   '' ''P1''"
    unfolding field_line_def by blast
  have c: "strip ''P1'' = ''P1''" by (simp add: strip_def isspace_def)
  from a b c
    extract_field_first_match [of "''Priority''" "[''**Area:** backend'']" "[''**Area:** backend'']"
      "''  **priority:**    P1   ''" "''P1''" "[]"]
  show ?thesis by simp
qed

section \<open>The issues validator\<close>

text \<open>
  \<^verbatim>\<open>check_issues(issues_path, project_root)\<close> reads a file, parses each non-blank line with
  \<^verbatim>\<open>json.loads\<close>, and checks the rows.  A parsed value is a \<open>json\<close>; a JSON object is an
  association list read with \<^verbatim>\<open>get\<close>, so that \<open>JNull\<close> is also what \<^verbatim>\<open>get\<close> gives for an
  absent key.  A float keeps the text Python prints for it: no check looks inside one.

  What the function takes from outside is the record \<open>env\<close>: the two paths as strings,
  the outcome of reading the file, the branch \<^verbatim>\<open>detect_git_branch\<close> returns (it catches
  every exception of its own), the outcome of \<^verbatim>\<open>resolve_under(project_root, p).exists()\<close>
  on a path, the text of a \<^verbatim>\<open>Path\<close>, the path group of \<^verbatim>\<open>REF_RE.match\<close> on a ref (\<open>None\<close>
  when the ref does not match), the outcome of \<^verbatim>\<open>json.loads\<close> on a line, the text Python
  prints for a list or an object, and the number of frames left for the calls of \<^verbatim>\<open>dfs\<close>
  when \<^verbatim>\<open>detect_cycle\<close> is reached.  Every theorem below holds for all of them.

  Nothing in \<^verbatim>\<open>check_issues\<close> catches an exception, so each one ends the run.  Reading the
  file can raise (\<^verbatim>\<open>OSError\<close> from \<^verbatim>\<open>exists\<close>, \<^verbatim>\<open>is_file\<close> or \<^verbatim>\<open>read_text\<close>); only
  \<^verbatim>\<open>UnicodeDecodeError\<close> is caught.  \<^verbatim>\<open>json.loads\<close> raises \<^verbatim>\<open>JSONDecodeError\<close>, which
  \<^verbatim>\<open>parse_json_line\<close> catches, and can raise other exceptions, which it does not
  (\<^verbatim>\<open>ValueError\<close> on an integer of too many digits, \<^verbatim>\<open>RecursionError\<close> on deep nesting).
  Resolving a path and asking whether it exists can raise (\<^verbatim>\<open>ValueError\<close> on an embedded
  null character, \<^verbatim>\<open>OSError\<close> on a name that is too long).  A membership test in a set of
  strings hashes the value, so it raises \<^verbatim>\<open>TypeError\<close> on a list or an object.  And
  \<^verbatim>\<open>detect_cycle\<close> raises \<^verbatim>\<open>RecursionError\<close> when the dependencies are deeper than the
  stack.
\<close>

datatype json =
    JNull
  | JBool bool
  | JInt int
  | JFloat string
  | JStr string
  | JList "json list"
  | JDict "(string \<times> json) list"

type_synonym jdict = "(string \<times> json) list"

datatype file_read = NoFile | NotAFile | NotUtf8 | Text string | ReadRaises py_error

datatype loads = Loaded json | JSONDecodeError string | LoadsRaises py_error

record env =
  issues_path :: string
  issues_file :: file_read
  project_root :: string
  fallback_branch :: string
  path_exists :: "string \<Rightarrow> py_error + bool"
  path_str :: "string \<Rightarrow> string"
  ref_match :: "string \<Rightarrow> string option"
  json_loads :: "string \<Rightarrow> loads"
  container_str :: "json \<Rightarrow> string"
  frames_left :: nat

definition dict_get_default :: "('k \<times> 'v) list \<Rightarrow> 'k \<Rightarrow> 'v \<Rightarrow> 'v" where
  "dict_get_default d k dflt = (case map_of d k of None \<Rightarrow> dflt | Some v \<Rightarrow> v)"

definition dict_get :: "jdict \<Rightarrow> string \<Rightarrow> json" where
  "dict_get d k = dict_get_default d k JNull"

definition has_key :: "('k \<times> 'v) list \<Rightarrow> 'k \<Rightarrow> bool" where
  "has_key d k = (map_of d k \<noteq> None)"

fun dict_set :: "'k \<Rightarrow> 'v \<Rightarrow> ('k \<times> 'v) list \<Rightarrow> ('k \<times> 'v) list" where
  "dict_set k v [] = [(k, v)]"
| "dict_set k v (e # d) = (if fst e = k then (k, v) # d else e # dict_set k v d)"

fun str_nat :: "nat \<Rightarrow> string" where
  "str_nat n =
     (if n < 10 then [char_of (48 + n)] else str_nat (n div 10) @ [char_of (48 + n mod 10)])"

declare str_nat.simps [simp del]

definition str_int :: "int \<Rightarrow> string" where
  "str_int i = (if i < 0 then ''-'' @ str_nat (nat (- i)) else str_nat (nat i))"

fun py_str :: "env \<Rightarrow> json \<Rightarrow> string" where
  "py_str env JNull = ''None''"
| "py_str env (JBool b) = (if b then ''True'' else ''False'')"
| "py_str env (JInt i) = str_int i"
| "py_str env (JFloat t) = t"
| "py_str env (JStr s) = s"
| "py_str env (JList xs) = container_str env (JList xs)"
| "py_str env (JDict d) = container_str env (JDict d)"

fun join :: "string \<Rightarrow> string list \<Rightarrow> string" where
  "join sep [] = []"
| "join sep [x] = x"
| "join sep (x # y # zs) = x @ sep @ join sep (y # zs)"

definition is_linebreak :: "char \<Rightarrow> bool" where
  "is_linebreak c = ((of_char c :: nat) \<in> {10, 11, 12, 13, 28, 29, 30, 133})"

fun splitlines_from :: "string \<Rightarrow> string \<Rightarrow> string list" where
  "splitlines_from [] cur = (if cur = [] then [] else [cur])"
| "splitlines_from (c # s) cur =
     (if c = CHR 0x0D then
        (case s of
           [] \<Rightarrow> [cur]
         | d # s' \<Rightarrow> if d = CHR 0x0A then cur # splitlines_from s' [] else cur # splitlines_from s [])
      else if is_linebreak c then cur # splitlines_from s []
      else splitlines_from s (cur @ [c]))"

definition splitlines :: "string \<Rightarrow> string list" where
  "splitlines text = splitlines_from text []"

definition read_text ::
  "string \<Rightarrow> file_read \<Rightarrow> Report \<Rightarrow> py_error + Report \<times> string option" where
  "read_text path file report =
     (case file of
        NoFile \<Rightarrow> Inr (error ''File does not exist'' path report, None)
      | NotAFile \<Rightarrow> Inr (error ''Path is not a file'' path report, None)
      | NotUtf8 \<Rightarrow> Inr (error ''File is not UTF-8 decodable'' path report, None)
      | Text text \<Rightarrow> Inr (report, Some text)
      | ReadRaises e \<Rightarrow> Inl e)"

definition parse_json_line ::
  "env \<Rightarrow> string \<Rightarrow> int \<Rightarrow> Report \<Rightarrow> string \<Rightarrow> py_error + Report \<times> jdict option" where
  "parse_json_line env line line_no report path =
     (case json_loads env line of
        JSONDecodeError msg \<Rightarrow>
          Inr (error (''Invalid JSON: '' @ msg) (path @ '':'' @ str_int line_no) report, None)
      | LoadsRaises e \<Rightarrow> Inl e
      | Loaded parsed \<Rightarrow>
          (case parsed of
             JDict d \<Rightarrow> Inr (report, Some d)
           | _ \<Rightarrow> Inr (error ''JSONL line must be a JSON object'' (path @ '':'' @ str_int line_no)
                         report, None)))"

fun parse_rows ::
  "env \<Rightarrow> string list \<Rightarrow> int \<Rightarrow> Report \<Rightarrow> (int \<times> jdict) list
     \<Rightarrow> py_error + Report \<times> (int \<times> jdict) list" where
  "parse_rows env [] idx report rows = Inr (report, rows)"
| "parse_rows env (line # lines) idx report rows =
     (case parse_json_line env line idx report (issues_path env) of
        Inl e \<Rightarrow> Inl e
      | Inr (report', None) \<Rightarrow> parse_rows env lines (idx + 1) report' rows
      | Inr (report', Some parsed) \<Rightarrow>
          parse_rows env lines (idx + 1) report' (rows @ [(idx, parsed)]))"

definition required_meta_fields :: "string list" where
  "required_meta_fields = [''plan'', ''goal'', ''tech_stack'', ''source'', ''total_issues'']"

definition check_meta :: "env \<Rightarrow> int \<Rightarrow> jdict \<Rightarrow> Report \<Rightarrow> Report" where
  "check_meta env meta_line_no meta report =
     (let loc = issues_path env @ '':'' @ str_int meta_line_no;
          report1 = (if dict_get meta ''type'' \<noteq> JStr ''meta''
                     then error ''First line must be `type=meta`'' loc report else report)
      in foldl (\<lambda>r field_name.
                  if \<not> has_key meta field_name
                  then error (''Meta missing field `'' @ field_name @ ''`'') loc r else r)
           report1 required_meta_fields)"

definition fallback_context :: "env \<Rightarrow> string \<Rightarrow> string" where
  "fallback_context env key = (if key = ''worktree_path'' then project_root env else fallback_branch env)"

definition check_execution_context :: "env \<Rightarrow> int \<Rightarrow> jdict \<Rightarrow> Report \<Rightarrow> Report" where
  "check_execution_context env meta_line_no meta report =
     (let loc = issues_path env @ '':'' @ str_int meta_line_no in
      case dict_get meta ''execution_context'' of
        JNull \<Rightarrow>
          info ''Meta `execution_context` missing; using fallback context (project_root/current_branch)''
            loc report
      | JDict execution_context \<Rightarrow>
          foldl (\<lambda>r key.
                   if strip (py_str env (dict_get_default execution_context key (JStr []))) = []
                   then info (''Meta execution_context missing `'' @ key @ ''`; fallback available (''
                              @ fallback_context env key @ '')'') loc r
                   else r)
            report [''worktree_path'', ''branch'', ''base_branch'']
      | _ \<Rightarrow>
          info ''Meta `execution_context` is not an object; fallback context will be used''
            loc report)"

definition check_source :: "env \<Rightarrow> int \<Rightarrow> jdict \<Rightarrow> Report \<Rightarrow> py_error + Report" where
  "check_source env meta_line_no meta report =
     (case dict_get meta ''source'' of
        JStr source \<Rightarrow>
          if strip source \<noteq> [] then
            (case path_exists env source of
               Inl e \<Rightarrow> Inl e
             | Inr present \<Rightarrow>
                 Inr (if \<not> present
                      then info ''Meta source path not found (non-blocking)''
                             (issues_path env @ '':'' @ str_int meta_line_no) report
                      else report))
          else Inr report
      | _ \<Rightarrow> Inr report)"

fun as_int :: "json \<Rightarrow> int option" where
  "as_int (JInt n) = Some n"
| "as_int (JBool b) = Some (if b then 1 else 0)"
| "as_int _ = None"

definition check_total_issues :: "env \<Rightarrow> int \<Rightarrow> jdict \<Rightarrow> nat \<Rightarrow> Report \<Rightarrow> Report" where
  "check_total_issues env meta_line_no meta n_rows report =
     (let total_issues = dict_get meta ''total_issues'' in
      case as_int total_issues of
        Some n \<Rightarrow>
          if n \<noteq> int n_rows
          then error (''Meta total_issues='' @ py_str env total_issues @ '' does not match actual=''
                      @ str_int (int n_rows)) (issues_path env @ '':'' @ str_int meta_line_no) report
          else report
      | None \<Rightarrow> report)"

subsection \<open>The checks on one issue row\<close>

definition required_issue_fields :: "string list" where
  "required_issue_fields =
     [''id'', ''priority'', ''phase'', ''area'', ''title'', ''description'', ''depends_on'',
      ''acceptance_criteria'', ''test_approach'', ''review_initial_requirements'',
      ''review_regression_requirements'', ''dev_state'', ''review_initial_state'',
      ''review_regression_state'', ''git_state'', ''blocked'', ''owner'', ''refs'', ''notes'']"

definition STATUS_ENUMS :: "(string \<times> string list) list" where
  "STATUS_ENUMS =
     [(''dev_state'', [''pending'', ''in_progress'', ''done'']),
      (''review_initial_state'', [''pending'', ''in_progress'', ''done'']),
      (''review_regression_state'', [''pending'', ''in_progress'', ''done'']),
      (''git_state'', [''uncommitted'', ''committed''])]"

fun unhashable :: "json \<Rightarrow> bool" where
  "unhashable (JList xs) = True"
| "unhashable (JDict d) = True"
| "unhashable _ = False"

fun in_str_set :: "json \<Rightarrow> string list \<Rightarrow> py_error + bool" where
  "in_str_set (JList xs) allowed = Inl (TypeError (''unhashable type: 'list'' @ [CHR 0x27]))"
| "in_str_set (JDict d) allowed = Inl (TypeError (''unhashable type: 'dict'' @ [CHR 0x27]))"
| "in_str_set (JStr s) allowed = Inr (s \<in> set allowed)"
| "in_str_set _ allowed = Inr False"

definition check_priority :: "env \<Rightarrow> jdict \<Rightarrow> string \<Rightarrow> Report \<Rightarrow> py_error + Report" where
  "check_priority env issue loc report =
     (case in_str_set (dict_get issue ''priority'') [''P0'', ''P1'', ''P2''] of
        Inl e \<Rightarrow> Inl e
      | Inr ok \<Rightarrow>
          Inr (if \<not> ok
               then error (''Invalid priority `'' @ py_str env (dict_get issue ''priority'') @ ''`'')
                      loc report
               else report))"

fun check_status_enums ::
  "env \<Rightarrow> jdict \<Rightarrow> string \<Rightarrow> (string \<times> string list) list \<Rightarrow> Report \<Rightarrow> py_error + Report" where
  "check_status_enums env issue loc [] report = Inr report"
| "check_status_enums env issue loc ((field_name, allowed) # enums) report =
     (case in_str_set (dict_get issue field_name) allowed of
        Inl e \<Rightarrow> Inl e
      | Inr ok \<Rightarrow>
          check_status_enums env issue loc enums
            (if \<not> ok
             then error (''Invalid '' @ field_name @ '' `'' @ py_str env (dict_get issue field_name)
                         @ ''`'') loc report
             else report))"

fun is_bool :: "json \<Rightarrow> bool" where
  "is_bool (JBool b) = True"
| "is_bool _ = False"

fun is_list :: "json \<Rightarrow> bool" where
  "is_list (JList xs) = True"
| "is_list _ = False"

definition check_blocked :: "jdict \<Rightarrow> string \<Rightarrow> Report \<Rightarrow> Report" where
  "check_blocked issue loc report =
     (if \<not> is_bool (dict_get issue ''blocked'')
      then error ''`blocked` must be boolean'' loc report else report)"

definition check_depends_on_type :: "jdict \<Rightarrow> string \<Rightarrow> Report \<Rightarrow> Report" where
  "check_depends_on_type issue loc report =
     (if \<not> is_list (dict_get issue ''depends_on'')
      then error ''`depends_on` must be an array'' loc report else report)"

definition check_ref :: "env \<Rightarrow> string \<Rightarrow> Report \<Rightarrow> json \<Rightarrow> py_error + Report" where
  "check_ref env loc report ref =
     (case ref of
        JStr s \<Rightarrow>
          (case ref_match env s of
             None \<Rightarrow> Inr (error (''Invalid ref format `'' @ s @ ''`'') loc report)
           | Some ref_path \<Rightarrow>
               (case path_exists env ref_path of
                  Inl e \<Rightarrow> Inl e
                | Inr present \<Rightarrow>
                    Inr (if \<not> present
                         then info (''Referenced path not found (non-blocking): ''
                                    @ path_str env ref_path) loc report
                         else report)))
      | _ \<Rightarrow> Inr (error ''Each ref must be string'' loc report))"

fun check_ref_list :: "env \<Rightarrow> string \<Rightarrow> json list \<Rightarrow> Report \<Rightarrow> py_error + Report" where
  "check_ref_list env loc [] report = Inr report"
| "check_ref_list env loc (ref # refs) report =
     (case check_ref env loc report ref of
        Inl e \<Rightarrow> Inl e
      | Inr report' \<Rightarrow> check_ref_list env loc refs report')"

definition check_refs :: "env \<Rightarrow> jdict \<Rightarrow> string \<Rightarrow> Report \<Rightarrow> py_error + Report" where
  "check_refs env issue loc report =
     (case dict_get issue ''refs'' of
        JList refs \<Rightarrow>
          if refs = [] then Inr (error ''`refs` must be a non-empty array'' loc report)
          else check_ref_list env loc refs report
      | _ \<Rightarrow> Inr (error ''`refs` must be a non-empty array'' loc report))"

definition check_committed :: "jdict \<Rightarrow> string \<Rightarrow> Report \<Rightarrow> Report" where
  "check_committed issue loc report =
     (if dict_get issue ''git_state'' = JStr ''committed'' then
        (let report1 =
               foldl (\<lambda>r state_name.
                        if dict_get issue state_name \<noteq> JStr ''done''
                        then error (''Committed issue must have `'' @ state_name @ ''=done`'') loc r
                        else r)
                 report [''dev_state'', ''review_initial_state'', ''review_regression_state'']
         in if dict_get issue ''blocked'' = JBool True
            then error ''Committed issue cannot be blocked'' loc report1 else report1)
      else report)"

type_synonym issue_map = "(string \<times> int \<times> jdict) list"

definition check_issue ::
  "env \<Rightarrow> int \<times> jdict \<Rightarrow> Report \<times> issue_map \<Rightarrow> py_error + Report \<times> issue_map" where
  "check_issue env row st =
     (case (row, st) of ((line_no, issue), (report, issue_map)) \<Rightarrow>
      let loc = issues_path env @ '':'' @ str_int line_no;
          report1 = foldl (\<lambda>r field_name.
                             if \<not> has_key issue field_name
                             then error (''Issue missing field `'' @ field_name @ ''`'') loc r
                             else r)
                      report required_issue_fields
      in case dict_get issue ''id'' of
           JStr issue_id \<Rightarrow>
             if strip issue_id = [] then
               Inr (error ''Issue `id` must be a non-empty string'' loc report1, issue_map)
             else
               (let report2 = (if has_key issue_map issue_id
                               then error (''Duplicate issue id `'' @ issue_id @ ''`'') loc report1
                               else report1);
                    issue_map2 = dict_set issue_id (line_no, issue) issue_map
                in case check_priority env issue loc report2 of
                     Inl e \<Rightarrow> Inl e
                   | Inr report3 \<Rightarrow>
                       (case check_status_enums env issue loc STATUS_ENUMS report3 of
                          Inl e \<Rightarrow> Inl e
                        | Inr report4 \<Rightarrow>
                            (case check_refs env issue loc
                                    (check_depends_on_type issue loc
                                       (check_blocked issue loc report4)) of
                               Inl e \<Rightarrow> Inl e
                             | Inr report5 \<Rightarrow>
                                 Inr (check_committed issue loc report5, issue_map2))))
         | _ \<Rightarrow> Inr (error ''Issue `id` must be a non-empty string'' loc report1, issue_map))"

fun check_issue_rows ::
  "env \<Rightarrow> (int \<times> jdict) list \<Rightarrow> Report \<times> issue_map \<Rightarrow> py_error + Report \<times> issue_map" where
  "check_issue_rows env [] st = Inr st"
| "check_issue_rows env (row # rows) st =
     (case check_issue env row st of
        Inl e \<Rightarrow> Inl e
      | Inr st' \<Rightarrow> check_issue_rows env rows st')"

subsection \<open>The dependency graph of the issues\<close>

definition check_dep ::
  "issue_map \<Rightarrow> string \<Rightarrow> string \<Rightarrow> Report \<times> edges \<Rightarrow> json \<Rightarrow> py_error + Report \<times> edges" where
  "check_dep issue_map issue_id loc st dep =
     (case st of (report, edges) \<Rightarrow>
      case dep of
        JStr dep_id \<Rightarrow>
          if strip dep_id = [] then
            Inr (error ''depends_on entries must be non-empty strings'' loc report, edges)
          else if dep_id = issue_id then
            Inr (error ''Issue cannot depend on itself'' loc report, edges)
          else if \<not> has_key issue_map dep_id then
            Inr (error (''Issue depends on unknown id `'' @ dep_id @ ''`'') loc report, edges)
          else
            (case map_of edges issue_id of
               None \<Rightarrow> Inl (KeyError issue_id)
             | Some deps \<Rightarrow> Inr (report, dict_set issue_id (deps @ [dep_id]) edges))
      | _ \<Rightarrow> Inr (error ''depends_on entries must be non-empty strings'' loc report, edges))"

fun check_deps ::
  "issue_map \<Rightarrow> string \<Rightarrow> string \<Rightarrow> json list \<Rightarrow> Report \<times> edges \<Rightarrow> py_error + Report \<times> edges" where
  "check_deps issue_map issue_id loc [] st = Inr st"
| "check_deps issue_map issue_id loc (dep # deps) st =
     (case check_dep issue_map issue_id loc st dep of
        Inl e \<Rightarrow> Inl e
      | Inr st' \<Rightarrow> check_deps issue_map issue_id loc deps st')"

fun check_dependencies ::
  "env \<Rightarrow> issue_map \<Rightarrow> issue_map \<Rightarrow> Report \<times> edges \<Rightarrow> py_error + Report \<times> edges" where
  "check_dependencies env issue_map [] st = Inr st"
| "check_dependencies env issue_map ((issue_id, line_no, issue) # items) st =
     (case dict_get_default issue ''depends_on'' (JList []) of
        JList depends_on \<Rightarrow>
          (case check_deps issue_map issue_id (issues_path env @ '':'' @ str_int line_no)
                  depends_on st of
             Inl e \<Rightarrow> Inl e
           | Inr st' \<Rightarrow> check_dependencies env issue_map items st')
      | _ \<Rightarrow> check_dependencies env issue_map items st)"

definition report_cycle :: "env \<Rightarrow> string list \<Rightarrow> edges \<Rightarrow> Report \<Rightarrow> Report outcome" where
  "report_cycle env issue_ids edges report =
     (case detect_cycle (frames_left env) issue_ids edges of
        Returns cycle \<Rightarrow>
          Returns (if truthy cycle
                   then error (''Issue dependency cycle detected: '' @ join '' -> '' (the cycle))
                          (issues_path env) report
                   else report)
      | Raises e \<Rightarrow> Raises e
      | Diverges \<Rightarrow> Diverges)"

definition check_issues_rows :: "env \<Rightarrow> (int \<times> jdict) list \<Rightarrow> Report \<Rightarrow> Report outcome" where
  "check_issues_rows env rows report =
     (case rows of
        [] \<Rightarrow> Returns report
      | (meta_line_no, meta) # issue_rows \<Rightarrow>
          (case check_source env meta_line_no meta
                  (check_execution_context env meta_line_no meta
                     (check_meta env meta_line_no meta report)) of
             Inl e \<Rightarrow> Raises e
           | Inr report1 \<Rightarrow>
               if issue_rows = [] then
                 Returns (error ''No issue rows after meta'' (issues_path env) report1)
               else
                 (case check_issue_rows env issue_rows
                         (check_total_issues env meta_line_no meta (length issue_rows) report1, []) of
                    Inl e \<Rightarrow> Raises e
                  | Inr (report2, issue_map) \<Rightarrow>
                      (case check_dependencies env issue_map issue_map
                              (report2, map (\<lambda>issue_id. (issue_id, [])) (map fst issue_map)) of
                         Inl e \<Rightarrow> Raises e
                       | Inr (report3, edges) \<Rightarrow>
                           report_cycle env (map fst issue_map) edges report3))))"

definition check_issues :: "env \<Rightarrow> Report outcome" where
  "check_issues env =
     (case read_text (issues_path env) (issues_file env) \<lparr>name = ''issues'', findings = []\<rparr> of
        Inl e \<Rightarrow> Raises e
      | Inr (report, None) \<Rightarrow> Returns report
      | Inr (report, Some text) \<Rightarrow>
          (let lines = filter (\<lambda>line. strip line \<noteq> []) (splitlines text) in
           if lines = [] then Returns (error ''JSONL is empty'' (issues_path env) report)
           else (case parse_rows env lines 1 report [] of
                   Inl e \<Rightarrow> Raises e
                 | Inr (report1, rows) \<Rightarrow> check_issues_rows env rows report1)))"

subsection \<open>Steps that only append findings\<close>

text \<open>
  \<open>adds_only P r r'\<close>: the findings of \<open>r'\<close> are those of \<open>r\<close> followed by findings that
  all satisfy \<open>P\<close>.  Each step of the validator is such a step, for every \<open>P\<close> that holds of
  the findings the step can write.
\<close>

definition adds_only :: "(Finding \<Rightarrow> bool) \<Rightarrow> Report \<Rightarrow> Report \<Rightarrow> bool" where
  "adds_only P r r' = (\<exists>new. findings r' = findings r @ new \<and> list_all P new)"

definition finding :: "string \<Rightarrow> string \<Rightarrow> string \<Rightarrow> Finding" where
  "finding sev msg loc = \<lparr>severity = sev, message = msg, location = loc\<rparr>"

lemma finding_sel [simp]:
  "severity (finding sev msg loc) = sev" "message (finding sev msg loc) = msg"
  "location (finding sev msg loc) = loc"
  by (simp_all add: finding_def)

lemma finding_eq [simp]:
  "(finding sev msg loc = finding sev' msg' loc') = (sev = sev' \<and> msg = msg' \<and> loc = loc')"
  by (auto simp: finding_def)

lemma findings_error: "findings (error msg loc r) = findings r @ [finding ''ERROR'' msg loc]"
  by (simp add: error_def add_def finding_def)

lemma findings_info: "findings (info msg loc r) = findings r @ [finding ''INFO'' msg loc]"
  by (simp add: info_def add_def finding_def)

lemma adds_refl: "adds_only P r r"
  by (simp add: adds_only_def)

lemma adds_trans: "adds_only P r r' \<Longrightarrow> adds_only P r' r'' \<Longrightarrow> adds_only P r r''"
  by (auto simp: adds_only_def)

lemma adds_error: "P (finding ''ERROR'' msg loc) \<Longrightarrow> adds_only P r (error msg loc r)"
  by (simp add: adds_only_def findings_error)

lemma adds_info: "P (finding ''INFO'' msg loc) \<Longrightarrow> adds_only P r (info msg loc r)"
  by (simp add: adds_only_def findings_info)

lemma adds_if_error:
  "(c \<Longrightarrow> P (finding ''ERROR'' msg loc)) \<Longrightarrow> adds_only P r (if c then error msg loc r else r)"
  by (simp add: adds_error adds_refl)

lemma adds_if_info:
  "(c \<Longrightarrow> P (finding ''INFO'' msg loc)) \<Longrightarrow> adds_only P r (if c then info msg loc r else r)"
  by (simp add: adds_info adds_refl)

lemma adds_if:
  "(c \<Longrightarrow> adds_only P r a) \<Longrightarrow> (\<not> c \<Longrightarrow> adds_only P r b) \<Longrightarrow> adds_only P r (if c then a else b)"
  by simp

lemma adds_foldl:
  assumes "\<And>r x. x \<in> set xs \<Longrightarrow> adds_only P r (f r x)"
  shows "adds_only P r (foldl f r xs)"
  using assms
proof (induction xs arbitrary: r)
  case Nil
  show ?case by (simp add: adds_refl)
next
  case (Cons x xs)
  have "adds_only P r (f r x)" by (rule Cons.prems) simp
  moreover have "adds_only P (f r x) (foldl f (f r x) xs)"
    by (rule Cons.IH) (simp add: Cons.prems)
  ultimately show ?case by (simp add: adds_trans)
qed

lemma adds_count:
  assumes "adds_only (\<lambda>f. f \<noteq> t) r r'"
  shows "count_list (findings r') t = count_list (findings r) t"
proof -
  from assms obtain new where n: "findings r' = findings r @ new" "list_all (\<lambda>f. f \<noteq> t) new"
    by (auto simp: adds_only_def)
  from n(2) have "t \<notin> set new" by (auto simp: list_all_iff)
  then have "count_list new t = 0" by (simp add: count_list_0_iff)
  with n(1) show ?thesis by simp
qed

lemma adds_all:
  "adds_only P r r' \<Longrightarrow> list_all P (findings r) \<Longrightarrow> list_all P (findings r')"
  by (auto simp: adds_only_def)

lemma adds_prefix: "adds_only P r r' \<Longrightarrow> \<exists>new. findings r' = findings r @ new"
  by (auto simp: adds_only_def)

subsection \<open>What each step appends\<close>

lemma check_meta_adds:
  assumes "P (finding ''ERROR'' ''First line must be `type=meta`'' (issues_path env @ '':'' @ str_int n))"
    and "\<And>f. f \<in> set required_meta_fields \<Longrightarrow>
           P (finding ''ERROR'' (''Meta missing field `'' @ f @ ''`'') (issues_path env @ '':'' @ str_int n))"
  shows "adds_only P r (check_meta env n meta r)"
proof -
  let ?r1 = "if dict_get meta ''type'' \<noteq> JStr ''meta''
             then error ''First line must be `type=meta`'' (issues_path env @ '':'' @ str_int n) r else r"
  have a: "adds_only P r ?r1" by (rule adds_if_error) (rule assms(1))
  have b: "adds_only P ?r1 (check_meta env n meta r)"
    unfolding check_meta_def Let_def
    by (rule adds_foldl) (rule adds_if_error, rule assms(2), assumption)
  from a b show ?thesis by (rule adds_trans)
qed

lemma check_execution_context_adds:
  assumes "\<And>msg. P (finding ''INFO'' msg (issues_path env @ '':'' @ str_int n))"
  shows "adds_only P r (check_execution_context env n meta r)"
proof (cases "dict_get meta ''execution_context''")
  case (JDict ec)
  then show ?thesis
    unfolding check_execution_context_def Let_def
    by (simp only: json.case) (rule adds_foldl, rule adds_if_info, rule assms)
qed (simp_all only: check_execution_context_def Let_def json.case, (rule adds_info, rule assms)+)

lemma check_source_adds:
  assumes "check_source env n meta r = Inr r'"
    and "P (finding ''INFO'' ''Meta source path not found (non-blocking)''
             (issues_path env @ '':'' @ str_int n))"
  shows "adds_only P r r'"
proof (cases "r' = r")
  case True
  then show ?thesis by (simp add: adds_refl)
next
  case False
  with assms(1) have "r' = info ''Meta source path not found (non-blocking)''
      (issues_path env @ '':'' @ str_int n) r"
    unfolding check_source_def by (auto split: json.splits if_splits sum.splits)
  then show ?thesis by (simp only:) (rule adds_info, rule assms(2))
qed

lemma check_total_issues_adds:
  assumes "\<And>a b. P (finding ''ERROR'' (''Meta total_issues='' @ a @ '' does not match actual='' @ b)
             (issues_path env @ '':'' @ str_int n))"
  shows "adds_only P r (check_total_issues env n meta k r)"
proof (cases "as_int (dict_get meta ''total_issues'')")
  case None
  then show ?thesis
    unfolding check_total_issues_def Let_def by (simp only: option.case adds_refl)
next
  case (Some v)
  then show ?thesis
    unfolding check_total_issues_def Let_def
    by (simp only: option.case) (rule adds_if_error, rule assms)
qed

lemma check_priority_adds:
  assumes "check_priority env issue loc r = Inr r'"
    and "\<And>a. P (finding ''ERROR'' (''Invalid priority `'' @ a @ ''`'') loc)"
  shows "adds_only P r r'"
proof (cases "in_str_set (dict_get issue ''priority'') [''P0'', ''P1'', ''P2'']")
  case (Inl e)
  with assms(1) show ?thesis unfolding check_priority_def by (simp only: sum.case) simp
next
  case (Inr ok)
  with assms(1) have "r' = (if \<not> ok
      then error (''Invalid priority `'' @ py_str env (dict_get issue ''priority'') @ ''`'') loc r
      else r)"
    unfolding check_priority_def by (simp only: sum.case) simp
  then show ?thesis by (simp only:) (rule adds_if_error, rule assms(2))
qed

lemma check_status_enums_adds:
  assumes "check_status_enums env issue loc enums r = Inr r'"
    and "\<And>field_name a. field_name \<in> fst ` set enums \<Longrightarrow>
           P (finding ''ERROR'' (''Invalid '' @ field_name @ '' `'' @ a @ ''`'') loc)"
  shows "adds_only P r r'"
  using assms
proof (induction enums arbitrary: r)
  case Nil
  then show ?case by (simp add: adds_refl)
next
  case (Cons e enums)
  obtain field_name allowed where e: "e = (field_name, allowed)" by (cases e)
  from Cons.prems(1) e obtain ok where ok: "in_str_set (dict_get issue field_name) allowed = Inr ok"
    by (auto split: sum.splits)
  let ?r1 = "if \<not> ok then error (''Invalid '' @ field_name @ '' `'' @ py_str env (dict_get issue field_name)
                         @ ''`'') loc r else r"
  from Cons.prems(1) e ok have rest: "check_status_enums env issue loc enums ?r1 = Inr r'"
    by (simp only: check_status_enums.simps sum.case)
  have "adds_only P r ?r1"
    by (rule adds_if_error) (rule Cons.prems(2), simp add: e)
  moreover have "adds_only P ?r1 r'"
    by (rule Cons.IH [OF rest]) (rule Cons.prems(2), simp)
  ultimately show ?case by (rule adds_trans)
qed

lemma check_blocked_adds:
  assumes "P (finding ''ERROR'' ''`blocked` must be boolean'' loc)"
  shows "adds_only P r (check_blocked issue loc r)"
  unfolding check_blocked_def by (rule adds_if_error) (rule assms)

lemma check_depends_on_type_adds:
  assumes "P (finding ''ERROR'' ''`depends_on` must be an array'' loc)"
  shows "adds_only P r (check_depends_on_type issue loc r)"
  unfolding check_depends_on_type_def by (rule adds_if_error) (rule assms)

lemma check_ref_adds:
  assumes res: "check_ref env loc r ref = Inr r'"
    and "\<And>s. P (finding ''ERROR'' (''Invalid ref format `'' @ s @ ''`'') loc)"
    and "P (finding ''ERROR'' ''Each ref must be string'' loc)"
    and "\<And>p. P (finding ''INFO'' (''Referenced path not found (non-blocking): '' @ p) loc)"
  shows "adds_only P r r'"
proof (cases ref)
  case (JStr s)
  show ?thesis
  proof (cases "ref_match env s")
    case None
    with JStr res have "r' = error (''Invalid ref format `'' @ s @ ''`'') loc r"
      by (simp add: check_ref_def)
    then show ?thesis by (simp only:) (rule adds_error, rule assms(2))
  next
    case (Some p)
    with JStr res obtain present where "r' = (if \<not> present
        then info (''Referenced path not found (non-blocking): '' @ path_str env p) loc r else r)"
      by (auto simp: check_ref_def split: sum.splits)
    then show ?thesis by (simp only:) (rule adds_if_info, rule assms(4))
  qed
next
  case JNull
  with res have "r' = error ''Each ref must be string'' loc r" by (simp add: check_ref_def)
  then show ?thesis by (simp only:) (rule adds_error, rule assms(3))
next
  case (JBool b)
  with res have "r' = error ''Each ref must be string'' loc r" by (simp add: check_ref_def)
  then show ?thesis by (simp only:) (rule adds_error, rule assms(3))
next
  case (JInt i)
  with res have "r' = error ''Each ref must be string'' loc r" by (simp add: check_ref_def)
  then show ?thesis by (simp only:) (rule adds_error, rule assms(3))
next
  case (JFloat t)
  with res have "r' = error ''Each ref must be string'' loc r" by (simp add: check_ref_def)
  then show ?thesis by (simp only:) (rule adds_error, rule assms(3))
next
  case (JList xs)
  with res have "r' = error ''Each ref must be string'' loc r" by (simp add: check_ref_def)
  then show ?thesis by (simp only:) (rule adds_error, rule assms(3))
next
  case (JDict d)
  with res have "r' = error ''Each ref must be string'' loc r" by (simp add: check_ref_def)
  then show ?thesis by (simp only:) (rule adds_error, rule assms(3))
qed

lemma check_ref_list_adds:
  assumes "check_ref_list env loc refs r = Inr r'"
    and "\<And>s. P (finding ''ERROR'' (''Invalid ref format `'' @ s @ ''`'') loc)"
    and "P (finding ''ERROR'' ''Each ref must be string'' loc)"
    and "\<And>p. P (finding ''INFO'' (''Referenced path not found (non-blocking): '' @ p) loc)"
  shows "adds_only P r r'"
  using assms(1)
proof (induction refs arbitrary: r)
  case Nil
  then show ?case by (simp add: adds_refl)
next
  case (Cons ref refs)
  from Cons.prems obtain r1 where s1: "check_ref env loc r ref = Inr r1"
    and rest: "check_ref_list env loc refs r1 = Inr r'"
    by (auto split: sum.splits)
  have "adds_only P r r1" by (rule check_ref_adds [OF s1]) (rule assms)+
  with Cons.IH [OF rest] show ?case by (blast intro: adds_trans)
qed

lemma check_refs_adds:
  assumes res: "check_refs env issue loc r = Inr r'"
    and "\<And>s. P (finding ''ERROR'' (''Invalid ref format `'' @ s @ ''`'') loc)"
    and "P (finding ''ERROR'' ''Each ref must be string'' loc)"
    and "\<And>p. P (finding ''INFO'' (''Referenced path not found (non-blocking): '' @ p) loc)"
    and "P (finding ''ERROR'' ''`refs` must be a non-empty array'' loc)"
  shows "adds_only P r r'"
proof (cases "\<exists>refs. dict_get issue ''refs'' = JList refs \<and> refs \<noteq> []")
  case True
  then obtain refs where "dict_get issue ''refs'' = JList refs" "refs \<noteq> []" by blast
  with res have "check_ref_list env loc refs r = Inr r'" by (simp add: check_refs_def)
  then show ?thesis by (rule check_ref_list_adds) (rule assms)+
next
  case False
  with res have "r' = error ''`refs` must be a non-empty array'' loc r"
    unfolding check_refs_def by (auto split: json.splits if_splits)
  then show ?thesis by (simp only:) (rule adds_error, rule assms(5))
qed

lemma check_committed_adds:
  assumes "\<And>s. s \<in> set [''dev_state'', ''review_initial_state'', ''review_regression_state''] \<Longrightarrow>
             P (finding ''ERROR'' (''Committed issue must have `'' @ s @ ''=done`'') loc)"
    and "P (finding ''ERROR'' ''Committed issue cannot be blocked'' loc)"
  shows "adds_only P r (check_committed issue loc r)"
proof (cases "dict_get issue ''git_state'' = JStr ''committed''")
  case False
  then show ?thesis unfolding check_committed_def by (simp only: if_False adds_refl)
next
  case True
  let ?r1 = "foldl (\<lambda>r state_name.
                        if dict_get issue state_name \<noteq> JStr ''done''
                        then error (''Committed issue must have `'' @ state_name @ ''=done`'') loc r
                        else r)
                 r [''dev_state'', ''review_initial_state'', ''review_regression_state'']"
  have a: "adds_only P r ?r1"
    by (rule adds_foldl) (rule adds_if_error, rule assms(1), assumption)
  have b: "adds_only P ?r1 (if dict_get issue ''blocked'' = JBool True
            then error ''Committed issue cannot be blocked'' loc ?r1 else ?r1)"
    by (rule adds_if_error) (rule assms(2))
  from True adds_trans [OF a b] show ?thesis
    unfolding check_committed_def Let_def by simp
qed

subsection \<open>One issue row\<close>

definition row_loc :: "env \<Rightarrow> int \<Rightarrow> string" where
  "row_loc env line_no = issues_path env @ '':'' @ str_int line_no"

definition missing_fields :: "jdict \<Rightarrow> string \<Rightarrow> Report \<Rightarrow> Report" where
  "missing_fields issue loc report =
     foldl (\<lambda>r field_name.
              if \<not> has_key issue field_name
              then error (''Issue missing field `'' @ field_name @ ''`'') loc r
              else r)
       report required_issue_fields"

lemma missing_fields_adds:
  assumes "\<And>f. P (finding ''ERROR'' (''Issue missing field `'' @ f @ ''`'') loc)"
  shows "adds_only P r (missing_fields issue loc r)"
  unfolding missing_fields_def by (rule adds_foldl) (rule adds_if_error, rule assms)

text \<open>
  A row is checkable when none of the exceptions of the loop body can occur on it: its
  priority and its four state values are not lists or objects, and the path check of each
  of its well-formed refs returns (\<open>isl\<close> holds of a raised exception).
\<close>

fun ref_checkable :: "env \<Rightarrow> json \<Rightarrow> bool" where
  "ref_checkable env (JStr s) =
     (case ref_match env s of
        None \<Rightarrow> True
      | Some ref_path \<Rightarrow> \<not> isl (path_exists env ref_path))"
| "ref_checkable env _ = True"

definition refs_checkable :: "env \<Rightarrow> jdict \<Rightarrow> bool" where
  "refs_checkable env issue =
     (case dict_get issue ''refs'' of
        JList refs \<Rightarrow> list_all (ref_checkable env) refs
      | _ \<Rightarrow> True)"

definition row_checkable :: "env \<Rightarrow> jdict \<Rightarrow> bool" where
  "row_checkable env issue =
     (\<not> unhashable (dict_get issue ''priority'')
      \<and> list_all (\<lambda>field_name. \<not> unhashable (dict_get issue field_name)) (map fst STATUS_ENUMS)
      \<and> refs_checkable env issue)"

lemma check_ref_returns:
  "ref_checkable env ref \<Longrightarrow> \<exists>r'. check_ref env loc r ref = Inr r'"
  by (cases ref) (auto simp: check_ref_def split: option.splits sum.splits)

lemma check_ref_list_returns:
  "list_all (ref_checkable env) refs \<Longrightarrow> \<exists>r'. check_ref_list env loc refs r = Inr r'"
proof (induction refs arbitrary: r)
  case Nil
  show ?case by simp
next
  case (Cons ref refs)
  from Cons.prems check_ref_returns [of env ref loc r] obtain r1
    where "check_ref env loc r ref = Inr r1" by auto
  moreover from Cons.IH [of r1] Cons.prems obtain r' where "check_ref_list env loc refs r1 = Inr r'"
    by auto
  ultimately show ?case by simp
qed

lemma check_refs_returns:
  "refs_checkable env issue \<Longrightarrow> \<exists>r'. check_refs env issue loc r = Inr r'"
  using check_ref_list_returns [of env _ loc r]
  by (auto simp: check_refs_def refs_checkable_def split: json.splits)

lemma in_str_set_hashable: "\<not> unhashable v \<Longrightarrow> \<exists>ok. in_str_set v allowed = Inr ok"
  by (cases v) auto

lemma check_priority_returns:
  "\<not> unhashable (dict_get issue ''priority'') \<Longrightarrow> \<exists>r'. check_priority env issue loc r = Inr r'"
  unfolding check_priority_def
  using in_str_set_hashable [of "dict_get issue ''priority''" "[''P0'', ''P1'', ''P2'']"]
  by auto

lemma check_status_enums_returns:
  "\<forall>f \<in> fst ` set enums. \<not> unhashable (dict_get issue f) \<Longrightarrow>
   \<exists>r'. check_status_enums env issue loc enums r = Inr r'"
proof (induction enums arbitrary: r)
  case Nil
  show ?case by simp
next
  case (Cons e enums)
  obtain f allowed where e: "e = (f, allowed)" by (cases e)
  with Cons.prems have "\<not> unhashable (dict_get issue f)" by simp
  from in_str_set_hashable [OF this, of allowed] obtain ok
    where "in_str_set (dict_get issue f) allowed = Inr ok" by blast
  moreover from Cons.prems have "\<forall>f \<in> fst ` set enums. \<not> unhashable (dict_get issue f)" by simp
  ultimately show ?case using Cons.IH e by simp
qed

lemma check_issue_valid_id:
  assumes id: "dict_get issue ''id'' = JStr issue_id" and ne: "strip issue_id \<noteq> []"
  shows "check_issue env (line_no, issue) (report, issue_map) =
     (case check_priority env issue (row_loc env line_no)
             (if has_key issue_map issue_id
              then error (''Duplicate issue id `'' @ issue_id @ ''`'') (row_loc env line_no)
                     (missing_fields issue (row_loc env line_no) report)
              else missing_fields issue (row_loc env line_no) report) of
        Inl e \<Rightarrow> Inl e
      | Inr report3 \<Rightarrow>
          (case check_status_enums env issue (row_loc env line_no) STATUS_ENUMS report3 of
             Inl e \<Rightarrow> Inl e
           | Inr report4 \<Rightarrow>
               (case check_refs env issue (row_loc env line_no)
                       (check_depends_on_type issue (row_loc env line_no)
                          (check_blocked issue (row_loc env line_no) report4)) of
                  Inl e \<Rightarrow> Inl e
                | Inr report5 \<Rightarrow>
                    Inr (check_committed issue (row_loc env line_no) report5,
                         dict_set issue_id (line_no, issue) issue_map))))"
  using ne unfolding check_issue_def Let_def row_loc_def missing_fields_def
  by (simp only: prod.case id json.case if_False)

lemma check_issue_invalid_id:
  assumes "\<And>s. dict_get issue ''id'' = JStr s \<Longrightarrow> strip s = []"
  shows "check_issue env (line_no, issue) (report, issue_map) =
     Inr (error ''Issue `id` must be a non-empty string'' (row_loc env line_no)
            (missing_fields issue (row_loc env line_no) report), issue_map)"
proof (cases "dict_get issue ''id''")
  case (JStr s)
  with assms [OF JStr] show ?thesis
    unfolding check_issue_def Let_def row_loc_def missing_fields_def
    by (simp only: prod.case json.case refl if_True)
qed (simp_all only: check_issue_def Let_def row_loc_def missing_fields_def prod.case json.case)

lemma check_issue_returns:
  assumes rc: "row_checkable env issue"
  shows "\<exists>report' issue_map'. check_issue env (line_no, issue) (report, issue_map)
           = Inr (report', issue_map')"
proof (cases "\<exists>s. dict_get issue ''id'' = JStr s \<and> strip s \<noteq> []")
  case False
  then have "\<And>s. dict_get issue ''id'' = JStr s \<Longrightarrow> strip s = []" by blast
  from check_issue_invalid_id [OF this] show ?thesis by blast
next
  case True
  then obtain s where s: "dict_get issue ''id'' = JStr s" "strip s \<noteq> []" by blast
  let ?l = "row_loc env line_no"
  let ?r2 = "if has_key issue_map s
              then error (''Duplicate issue id `'' @ s @ ''`'') ?l (missing_fields issue ?l report)
              else missing_fields issue ?l report"
  from rc have h1: "\<not> unhashable (dict_get issue ''priority'')"
    and h2: "\<forall>f \<in> fst ` set STATUS_ENUMS. \<not> unhashable (dict_get issue f)"
    and h3: "refs_checkable env issue"
    by (simp_all add: row_checkable_def list_all_iff)
  from check_priority_returns [OF h1] obtain r3
    where r3: "check_priority env issue ?l ?r2 = Inr r3" by blast
  from check_status_enums_returns [OF h2] obtain r4
    where r4: "check_status_enums env issue ?l STATUS_ENUMS r3 = Inr r4" by blast
  from check_refs_returns [OF h3] obtain r5
    where r5: "check_refs env issue ?l (check_depends_on_type issue ?l (check_blocked issue ?l r4))
                 = Inr r5" by blast
  show ?thesis
    unfolding check_issue_valid_id [OF s] by (simp only: r3 r4 r5 sum.case) blast
qed

definition issue_shapes :: "(Finding \<Rightarrow> bool) \<Rightarrow> string \<Rightarrow> bool" where
  "issue_shapes P loc =
     ((\<forall>f. P (finding ''ERROR'' (''Issue missing field `'' @ f @ ''`'') loc))
      \<and> P (finding ''ERROR'' ''Issue `id` must be a non-empty string'' loc)
      \<and> (\<forall>a. P (finding ''ERROR'' (''Invalid priority `'' @ a @ ''`'') loc))
      \<and> (\<forall>f a. f \<in> fst ` set STATUS_ENUMS \<longrightarrow>
             P (finding ''ERROR'' (''Invalid '' @ f @ '' `'' @ a @ ''`'') loc))
      \<and> P (finding ''ERROR'' ''`blocked` must be boolean'' loc)
      \<and> P (finding ''ERROR'' ''`depends_on` must be an array'' loc)
      \<and> (\<forall>s. P (finding ''ERROR'' (''Invalid ref format `'' @ s @ ''`'') loc))
      \<and> P (finding ''ERROR'' ''Each ref must be string'' loc)
      \<and> (\<forall>p. P (finding ''INFO'' (''Referenced path not found (non-blocking): '' @ p) loc))
      \<and> P (finding ''ERROR'' ''`refs` must be a non-empty array'' loc))"

lemma after_duplicate_adds:
  assumes sh: "issue_shapes P loc"
    and p: "check_priority env issue loc r2 = Inr r3"
    and s: "check_status_enums env issue loc STATUS_ENUMS r3 = Inr r4"
    and cr: "check_refs env issue loc (check_depends_on_type issue loc (check_blocked issue loc r4))
              = Inr r5"
  shows "adds_only P r2 r5"
proof -
  have a: "adds_only P r2 r3"
    by (rule check_priority_adds [OF p]) (use sh in \<open>simp add: issue_shapes_def\<close>)
  have b: "adds_only P r3 r4"
    by (rule check_status_enums_adds [OF s]) (use sh in \<open>simp add: issue_shapes_def\<close>)
  have c: "adds_only P r4 (check_blocked issue loc r4)"
    by (rule check_blocked_adds) (use sh in \<open>simp add: issue_shapes_def\<close>)
  have d: "adds_only P (check_blocked issue loc r4)
             (check_depends_on_type issue loc (check_blocked issue loc r4))"
    by (rule check_depends_on_type_adds) (use sh in \<open>simp add: issue_shapes_def\<close>)
  have e: "adds_only P (check_depends_on_type issue loc (check_blocked issue loc r4)) r5"
    by (rule check_refs_adds [OF cr]) (use sh in \<open>simp_all add: issue_shapes_def\<close>)
  from a b c d e show ?thesis by (blast intro: adds_trans)
qed

lemma missing_fields_shapes:
  "issue_shapes P loc \<Longrightarrow> adds_only P r (missing_fields issue loc r)"
  by (rule missing_fields_adds) (simp add: issue_shapes_def)

text \<open>A row with a usable id: the report after each stage of \<^verbatim>\<open>check_issue\<close>.\<close>

lemma check_issue_stages:
  assumes id: "dict_get issue ''id'' = JStr issue_id" and ne: "strip issue_id \<noteq> []"
    and res: "check_issue env (line_no, issue) (report, issue_map) = Inr (report', issue_map')"
    and sh: "issue_shapes P (row_loc env line_no)"
  shows "\<exists>r5. adds_only P
                (if has_key issue_map issue_id
                 then error (''Duplicate issue id `'' @ issue_id @ ''`'') (row_loc env line_no)
                        (missing_fields issue (row_loc env line_no) report)
                 else missing_fields issue (row_loc env line_no) report) r5
              \<and> report' = check_committed issue (row_loc env line_no) r5
              \<and> issue_map' = dict_set issue_id (line_no, issue) issue_map"
proof -
  let ?l = "row_loc env line_no"
  let ?r1 = "missing_fields issue ?l report"
  let ?r2 = "if has_key issue_map issue_id
             then error (''Duplicate issue id `'' @ issue_id @ ''`'') ?l ?r1 else ?r1"
  from res obtain r3 where r3: "check_priority env issue ?l ?r2 = Inr r3"
    unfolding check_issue_valid_id [OF id ne] by (auto split: sum.splits)
  from res r3 obtain r4 where r4: "check_status_enums env issue ?l STATUS_ENUMS r3 = Inr r4"
    unfolding check_issue_valid_id [OF id ne] by (auto split: sum.splits)
  from res r3 r4 obtain r5 where
    r5: "check_refs env issue ?l (check_depends_on_type issue ?l (check_blocked issue ?l r4)) = Inr r5"
    unfolding check_issue_valid_id [OF id ne] by (auto split: sum.splits)
  from res r3 r4 r5 have a: "report' = check_committed issue ?l r5"
    and b: "issue_map' = dict_set issue_id (line_no, issue) issue_map"
    unfolding check_issue_valid_id [OF id ne] by simp_all
  have c: "adds_only P ?r2 r5"
    by (rule after_duplicate_adds [OF sh r3 r4 r5])
  from a b c show ?thesis by blast
qed

lemma check_committed_counts:
  assumes "dict_get issue ''git_state'' = JStr ''committed''"
  shows "count_list (findings (check_committed issue loc r))
           (finding ''ERROR'' ''Committed issue must have `dev_state=done`'' loc)
         = count_list (findings r) (finding ''ERROR'' ''Committed issue must have `dev_state=done`'' loc)
           + (if dict_get issue ''dev_state'' \<noteq> JStr ''done'' then 1 else 0)"
    and "count_list (findings (check_committed issue loc r))
           (finding ''ERROR'' ''Committed issue must have `review_initial_state=done`'' loc)
         = count_list (findings r)
             (finding ''ERROR'' ''Committed issue must have `review_initial_state=done`'' loc)
           + (if dict_get issue ''review_initial_state'' \<noteq> JStr ''done'' then 1 else 0)"
    and "count_list (findings (check_committed issue loc r))
           (finding ''ERROR'' ''Committed issue must have `review_regression_state=done`'' loc)
         = count_list (findings r)
             (finding ''ERROR'' ''Committed issue must have `review_regression_state=done`'' loc)
           + (if dict_get issue ''review_regression_state'' \<noteq> JStr ''done'' then 1 else 0)"
    and "count_list (findings (check_committed issue loc r))
           (finding ''ERROR'' ''Committed issue cannot be blocked'' loc)
         = count_list (findings r) (finding ''ERROR'' ''Committed issue cannot be blocked'' loc)
           + (if dict_get issue ''blocked'' = JBool True then 1 else 0)"
  using assms by (simp_all add: check_committed_def Let_def findings_error)

lemma not_committed_count:
  assumes id: "dict_get issue ''id'' = JStr issue_id" and ne: "strip issue_id \<noteq> []"
    and res: "check_issue env (line_no, issue) (report, issue_map) = Inr (report', issue_map')"
    and t: "t = finding ''ERROR'' (''Committed issue '' @ rest) (row_loc env line_no)"
  shows "\<exists>r5. report' = check_committed issue (row_loc env line_no) r5
           \<and> count_list (findings r5) t = count_list (findings report) t"
proof -
  let ?P = "\<lambda>f. f \<noteq> t"
  let ?l = "row_loc env line_no"
  have sh: "issue_shapes ?P ?l"
    unfolding issue_shapes_def t finding_eq by simp
  let ?r1 = "missing_fields issue ?l report"
  let ?r2 = "if has_key issue_map issue_id
             then error (''Duplicate issue id `'' @ issue_id @ ''`'') ?l ?r1 else ?r1"
  from check_issue_stages [OF id ne res sh] obtain r5 where
    r5: "adds_only ?P ?r2 r5" and rep: "report' = check_committed issue ?l r5"
    by blast
  have "adds_only ?P report ?r1" by (rule missing_fields_shapes [OF sh])
  moreover have "adds_only ?P ?r1 ?r2"
    by (rule adds_if_error) (simp add: t)
  ultimately have "adds_only ?P report r5" using r5 by (blast intro: adds_trans)
  from adds_count [OF this] rep show ?thesis by blast
qed

subsection \<open>The row loop and the issue map\<close>

text \<open>
  \<^verbatim>\<open>issue_map\<close> is a Python dictionary: an assignment to a key that is present replaces
  the value and keeps the key where it is in the order of the keys, an assignment to a new
  key puts it last (\<open>dict_set\<close>).  A record has a usable id when its \<^verbatim>\<open>id\<close> is a string
  that is not blank; only such a record reaches the assignment.
\<close>

lemma map_of_dict_set: "map_of (dict_set k v d) = (map_of d)(k \<mapsto> v)"
  by (induction d) (auto simp: fun_eq_iff)

lemma keys_dict_set: "fst ` set (dict_set k v d) = insert k (fst ` set d)"
  by (induction d) auto

lemma map_fst_dict_set:
  "map fst (dict_set k v d) = (if k \<in> fst ` set d then map fst d else map fst d @ [k])"
  by (induction d) auto

lemma has_key_iff: "has_key d k = (k \<in> fst ` set d)"
  by (simp add: has_key_def map_of_eq_None_iff)

definition usable_id :: "jdict \<Rightarrow> string \<Rightarrow> bool" where
  "usable_id issue issue_id = (dict_get issue ''id'' = JStr issue_id \<and> strip issue_id \<noteq> [])"

lemma check_issue_map:
  assumes "check_issue env (line_no, issue) (report, issue_map) = Inr (report', issue_map')"
  shows "(usable_id issue issue_id \<longrightarrow> issue_map' = dict_set issue_id (line_no, issue) issue_map)
         \<and> ((\<forall>s. \<not> usable_id issue s) \<longrightarrow> issue_map' = issue_map)"
proof (intro conjI impI)
  assume "usable_id issue issue_id"
  then have id: "dict_get issue ''id'' = JStr issue_id" and ne: "strip issue_id \<noteq> []"
    by (simp_all add: usable_id_def)
  from assms show "issue_map' = dict_set issue_id (line_no, issue) issue_map"
    unfolding check_issue_valid_id [OF id ne] by (auto split: sum.splits)
next
  assume "\<forall>s. \<not> usable_id issue s"
  then have "\<And>s. dict_get issue ''id'' = JStr s \<Longrightarrow> strip s = []"
    by (auto simp: usable_id_def)
  from check_issue_invalid_id [OF this] assms show "issue_map' = issue_map" by simp
qed

lemma check_issue_other_key:
  assumes "check_issue env (line_no, issue) (report, issue_map) = Inr (report', issue_map')"
    and "dict_get issue ''id'' \<noteq> JStr k"
  shows "map_of issue_map' k = map_of issue_map k"
proof (cases "\<exists>s. usable_id issue s")
  case True
  then obtain s where s: "usable_id issue s" by blast
  with assms(2) have "s \<noteq> k" by (auto simp: usable_id_def)
  with check_issue_map [OF assms(1), of s] s show ?thesis by (simp add: map_of_dict_set)
next
  case False
  with check_issue_map [OF assms(1)] show ?thesis by simp
qed

lemma check_issue_rows_append:
  "check_issue_rows env (xs @ ys) st =
     (case check_issue_rows env xs st of Inl e \<Rightarrow> Inl e | Inr st' \<Rightarrow> check_issue_rows env ys st')"
  by (induction xs arbitrary: st) (auto split: sum.splits)

lemma check_issue_rows_other_key:
  "check_issue_rows env rows (report, issue_map) = Inr (report', issue_map') \<Longrightarrow>
   \<forall>row \<in> set rows. dict_get (snd row) ''id'' \<noteq> JStr k \<Longrightarrow>
   map_of issue_map' k = map_of issue_map k"
proof (induction rows arbitrary: report issue_map)
  case Nil
  then show ?case by simp
next
  case (Cons row rows)
  obtain line_no issue where row: "row = (line_no, issue)" by (cases row)
  from Cons.prems(1) obtain r1 m1 where s1: "check_issue env row (report, issue_map) = Inr (r1, m1)"
    and rest: "check_issue_rows env rows (r1, m1) = Inr (report', issue_map')"
    by (auto split: sum.splits)
  from Cons.prems(2) row have "dict_get issue ''id'' \<noteq> JStr k" by simp
  from check_issue_other_key [OF s1 [unfolded row] this] have "map_of m1 k = map_of issue_map k" .
  moreover from Cons.IH [OF rest] Cons.prems(2) have "map_of issue_map' k = map_of m1 k" by simp
  ultimately show ?case by simp
qed

lemma check_issue_rows_keys:
  "check_issue_rows env rows (report, issue_map) = Inr (report', issue_map') \<Longrightarrow>
   fst ` set issue_map' = fst ` set issue_map \<union> {s. \<exists>row \<in> set rows. usable_id (snd row) s}"
proof (induction rows arbitrary: report issue_map)
  case Nil
  then show ?case by simp
next
  case (Cons row rows)
  obtain line_no issue where row: "row = (line_no, issue)" by (cases row)
  from Cons.prems(1) obtain r1 m1 where s1: "check_issue env row (report, issue_map) = Inr (r1, m1)"
    and rest: "check_issue_rows env rows (r1, m1) = Inr (report', issue_map')"
    by (auto split: sum.splits)
  have k1: "fst ` set m1 = fst ` set issue_map \<union> {s. usable_id issue s}"
  proof (cases "\<exists>s. usable_id issue s")
    case True
    then obtain s where s: "usable_id issue s" by blast
    then have "{s. usable_id issue s} = {s}" by (auto simp: usable_id_def)
    with check_issue_map [OF s1 [unfolded row], of s] s show ?thesis
      by (simp add: keys_dict_set)
  next
    case False
    with check_issue_map [OF s1 [unfolded row]] show ?thesis by simp
  qed
  from Cons.IH [OF rest] k1 row show ?case by auto
qed

lemma check_issue_rows_returns:
  assumes "list_all (\<lambda>row. row_checkable env (snd row)) rows"
  shows "\<exists>st'. check_issue_rows env rows st = Inr st'"
  using assms
proof (induction rows arbitrary: st)
  case Nil
  show ?case by simp
next
  case (Cons row rows)
  obtain line_no issue where row: "row = (line_no, issue)" by (cases row)
  obtain report issue_map where st: "st = (report, issue_map)" by (cases st)
  from Cons.prems row have "row_checkable env issue" by simp
  from check_issue_returns [OF this] obtain st1 where "check_issue env row st = Inr st1"
    unfolding row st by blast
  moreover from Cons.IH [of st1] Cons.prems obtain st' where "check_issue_rows env rows st1 = Inr st'"
    by auto
  ultimately show ?case by simp
qed

lemma duplicate_count:
  assumes id: "dict_get issue ''id'' = JStr issue_id" and ne: "strip issue_id \<noteq> []"
    and res: "check_issue env (line_no, issue) (report, issue_map) = Inr (report', issue_map')"
  shows "count_list (findings report')
           (finding ''ERROR'' (''Duplicate issue id `'' @ issue_id @ ''`'') (row_loc env line_no))
         = count_list (findings report)
             (finding ''ERROR'' (''Duplicate issue id `'' @ issue_id @ ''`'') (row_loc env line_no))
           + (if has_key issue_map issue_id then 1 else 0)"
proof -
  let ?l = "row_loc env line_no"
  let ?t = "finding ''ERROR'' (''Duplicate issue id `'' @ issue_id @ ''`'') ?l"
  let ?P = "\<lambda>f. f \<noteq> ?t"
  have sh: "issue_shapes ?P ?l"
    unfolding issue_shapes_def finding_eq by simp
  let ?r1 = "missing_fields issue ?l report"
  let ?r2 = "if has_key issue_map issue_id
             then error (''Duplicate issue id `'' @ issue_id @ ''`'') ?l ?r1 else ?r1"
  from check_issue_stages [OF id ne res sh] obtain r5 where
    r5: "adds_only ?P ?r2 r5" and rep: "report' = check_committed issue ?l r5"
    by blast
  have a: "count_list (findings ?r1) ?t = count_list (findings report) ?t"
    by (rule adds_count) (rule missing_fields_shapes [OF sh])
  have b: "count_list (findings ?r2) ?t
           = count_list (findings ?r1) ?t + (if has_key issue_map issue_id then 1 else 0)"
    by (simp add: findings_error)
  have c: "count_list (findings r5) ?t = count_list (findings ?r2) ?t"
    by (rule adds_count [OF r5])
  have "adds_only ?P r5 (check_committed issue ?l r5)"
    by (rule check_committed_adds) simp_all
  from adds_count [OF this] rep have d: "count_list (findings report') ?t = count_list (findings r5) ?t"
    by simp
  from a b c d show ?thesis by simp
qed

text \<open>
  The keys of the issue map after the loop: the usable ids of the rows, each once, in the
  order in which they first occur.
\<close>

definition row_id :: "jdict \<Rightarrow> string option" where
  "row_id issue =
     (case dict_get issue ''id'' of
        JStr s \<Rightarrow> if strip s = [] then None else Some s
      | _ \<Rightarrow> None)"

definition usable_ids :: "(int \<times> jdict) list \<Rightarrow> string list" where
  "usable_ids rows = List.map_filter (\<lambda>row. row_id (snd row)) rows"

definition first_seen :: "string list \<Rightarrow> string list" where
  "first_seen ids = rev (remdups (rev ids))"

lemma usable_id_row_id: "usable_id issue s = (row_id issue = Some s)"
  by (auto simp: usable_id_def row_id_def split: json.splits)

lemma first_seen_snoc:
  "first_seen (ids @ [k]) = (if k \<in> set ids then first_seen ids else first_seen ids @ [k])"
  by (simp add: first_seen_def)

lemma set_first_seen [simp]: "set (first_seen ids) = set ids"
  by (simp add: first_seen_def)

lemma usable_ids_Cons:
  "usable_ids (row # rows) =
     (case row_id (snd row) of None \<Rightarrow> [] | Some k \<Rightarrow> [k]) @ usable_ids rows"
  by (simp add: usable_ids_def List.map_filter_simps split: option.splits)

lemma check_issue_rows_order:
  "check_issue_rows env rows (report, issue_map) = Inr (report', issue_map') \<Longrightarrow>
   map fst issue_map = first_seen ids \<Longrightarrow>
   map fst issue_map' = first_seen (ids @ usable_ids rows)"
proof (induction rows arbitrary: report issue_map ids)
  case Nil
  then show ?case by (simp add: usable_ids_def List.map_filter_simps)
next
  case (Cons row rows)
  obtain line_no issue where row: "row = (line_no, issue)" by (cases row)
  from Cons.prems(1) obtain r1 m1 where s1: "check_issue env row (report, issue_map) = Inr (r1, m1)"
    and rest: "check_issue_rows env rows (r1, m1) = Inr (report', issue_map')"
    by (auto split: sum.splits)
  show ?case
  proof (cases "row_id issue")
    case None
    then have "\<forall>s. \<not> usable_id issue s" by (simp add: usable_id_row_id)
    with check_issue_map [OF s1 [unfolded row]] have "m1 = issue_map" by simp
    with Cons.IH [OF rest, of ids] Cons.prems(2) None row show ?thesis
      by (simp add: usable_ids_Cons)
  next
    case (Some k)
    then have "usable_id issue k" by (simp add: usable_id_row_id)
    with check_issue_map [OF s1 [unfolded row], of k]
    have "m1 = dict_set k (line_no, issue) issue_map" by simp
    moreover from Cons.prems(2) have "fst ` set issue_map = set ids"
      using set_first_seen [of ids] set_map [of fst issue_map] by simp
    ultimately have "map fst m1 = first_seen (ids @ [k])"
      using Cons.prems(2) by (simp add: map_fst_dict_set first_seen_snoc)
    from Cons.IH [OF rest this] Some row show ?thesis
      by (simp add: usable_ids_Cons)
  qed
qed

lemma check_issue_rows_split:
  assumes "check_issue_rows env (pre @ row # post) st = Inr st'"
  shows "\<exists>st1 st2. check_issue_rows env pre st = Inr st1 \<and> check_issue env row st1 = Inr st2
           \<and> check_issue_rows env post st2 = Inr st'"
  using assms by (auto simp: check_issue_rows_append split: sum.splits)

subsection \<open>Every finding of the issues validator\<close>

text \<open>
  The three messages written by the inspection of \<^verbatim>\<open>execution_context\<close> start with
  \<^verbatim>\<open>Meta `execution_context`\<close> or with \<^verbatim>\<open>Meta execution_context\<close>; a message about
  \<^verbatim>\<open>execution_context\<close> is one with such a start.  \<open>ok_finding\<close> is what every finding of
  the validator turns out to be: an INFO, or an ERROR that is not about
  \<^verbatim>\<open>execution_context\<close>.
\<close>

definition about_execution_context :: "string \<Rightarrow> bool" where
  "about_execution_context msg =
     (take 24 msg = ''Meta `execution_context`'' \<or> take 22 msg = ''Meta execution_context'')"

definition ok_finding :: "Finding \<Rightarrow> bool" where
  "ok_finding f =
     (severity f = ''INFO'' \<or> (severity f = ''ERROR'' \<and> \<not> about_execution_context (message f)))"

lemma ok_info [simp]: "ok_finding (finding ''INFO'' msg loc)"
  by (simp add: ok_finding_def)

lemma ok_error: "\<not> about_execution_context msg \<Longrightarrow> ok_finding (finding ''ERROR'' msg loc)"
  by (simp add: ok_finding_def)

lemma read_text_ok:
  "read_text path file report = Inr (report', content) \<Longrightarrow> adds_only ok_finding report report'"
  unfolding read_text_def
  by (cases "file") (auto intro!: adds_error adds_refl ok_error simp: about_execution_context_def)

lemma parse_json_line_ok:
  "parse_json_line env line line_no report path = Inr (report', parsed) \<Longrightarrow>
   adds_only ok_finding report report'"
  unfolding parse_json_line_def
  by (auto split: loads.splits json.splits intro!: adds_error adds_refl ok_error
        simp: about_execution_context_def)

lemma parse_rows_ok:
  "parse_rows env lines idx report rows = Inr (report', rows') \<Longrightarrow>
   adds_only ok_finding report report'"
proof (induction lines arbitrary: idx report rows)
  case Nil
  then show ?case by (simp add: adds_refl)
next
  case (Cons line lines)
  from Cons.prems obtain r1 p where
    p: "parse_json_line env line idx report (issues_path env) = Inr (r1, p)"
    by (auto split: sum.splits)
  have a: "adds_only ok_finding report r1" by (rule parse_json_line_ok [OF p])
  from Cons.prems p have "\<exists>rows1. parse_rows env lines (idx + 1) r1 rows1 = Inr (report', rows')"
    by (cases p) auto
  then obtain rows1 where "parse_rows env lines (idx + 1) r1 rows1 = Inr (report', rows')" by blast
  from Cons.IH [OF this] a show ?case by (blast intro: adds_trans)
qed

lemma check_meta_ok: "adds_only ok_finding r (check_meta env n meta r)"
  by (rule check_meta_adds) (auto intro!: ok_error simp: about_execution_context_def)

lemma check_execution_context_ok: "adds_only ok_finding r (check_execution_context env n meta r)"
  by (rule check_execution_context_adds) simp

lemma check_source_ok: "check_source env n meta r = Inr r' \<Longrightarrow> adds_only ok_finding r r'"
  by (erule check_source_adds) simp

lemma check_total_issues_ok: "adds_only ok_finding r (check_total_issues env n meta k r)"
  by (rule check_total_issues_adds) (auto intro!: ok_error simp: about_execution_context_def)

lemma issue_shapes_ok: "issue_shapes ok_finding loc"
  unfolding issue_shapes_def
  by (auto intro!: ok_error simp: about_execution_context_def)

lemma check_issue_ok:
  assumes "check_issue env (line_no, issue) (report, issue_map) = Inr (report', issue_map')"
  shows "adds_only ok_finding report report'"
proof (cases "\<exists>s. usable_id issue s")
  case False
  then have "\<And>s. dict_get issue ''id'' = JStr s \<Longrightarrow> strip s = []"
    by (auto simp: usable_id_def)
  from check_issue_invalid_id [OF this] assms
  have r: "report' = error ''Issue `id` must be a non-empty string'' (row_loc env line_no)
            (missing_fields issue (row_loc env line_no) report)" by simp
  have "adds_only ok_finding report (missing_fields issue (row_loc env line_no) report)"
    by (rule missing_fields_shapes [OF issue_shapes_ok])
  moreover have "adds_only ok_finding (missing_fields issue (row_loc env line_no) report) report'"
    unfolding r by (rule adds_error) (auto intro!: ok_error simp: about_execution_context_def)
  ultimately show ?thesis by (rule adds_trans)
next
  case True
  then obtain s where id: "dict_get issue ''id'' = JStr s" and ne: "strip s \<noteq> []"
    by (auto simp: usable_id_def)
  let ?l = "row_loc env line_no"
  let ?r1 = "missing_fields issue ?l report"
  let ?r2 = "if has_key issue_map s then error (''Duplicate issue id `'' @ s @ ''`'') ?l ?r1 else ?r1"
  from check_issue_stages [OF id ne assms issue_shapes_ok] obtain r5 where
    r5: "adds_only ok_finding ?r2 r5" and rep: "report' = check_committed issue ?l r5"
    by blast
  have a: "adds_only ok_finding report ?r1" by (rule missing_fields_shapes [OF issue_shapes_ok])
  have b: "adds_only ok_finding ?r1 ?r2"
    by (rule adds_if_error) (auto intro!: ok_error simp: about_execution_context_def)
  have c: "adds_only ok_finding r5 report'"
    unfolding rep
    by (rule check_committed_adds) (auto intro!: ok_error simp: about_execution_context_def)
  from a b r5 c show ?thesis by (blast intro: adds_trans)
qed

lemma check_issue_rows_ok:
  "check_issue_rows env rows (report, issue_map) = Inr (report', issue_map') \<Longrightarrow>
   adds_only ok_finding report report'"
proof (induction rows arbitrary: report issue_map)
  case Nil
  then show ?case by (simp add: adds_refl)
next
  case (Cons row rows)
  obtain line_no issue where row: "row = (line_no, issue)" by (cases row)
  from Cons.prems obtain r1 m1 where s1: "check_issue env row (report, issue_map) = Inr (r1, m1)"
    and rest: "check_issue_rows env rows (r1, m1) = Inr (report', issue_map')"
    by (auto split: sum.splits)
  from check_issue_ok [OF s1 [unfolded row]] Cons.IH [OF rest] show ?case by (rule adds_trans)
qed

lemma check_dep_ok:
  "check_dep issue_map issue_id loc (report, edges) dep = Inr (report', edges') \<Longrightarrow>
   adds_only ok_finding report report'"
  unfolding check_dep_def
  by (auto split: json.splits if_splits option.splits
        intro!: adds_error adds_refl ok_error simp: about_execution_context_def)

lemma check_deps_ok:
  "check_deps issue_map issue_id loc deps (report, edges) = Inr (report', edges') \<Longrightarrow>
   adds_only ok_finding report report'"
proof (induction deps arbitrary: report edges)
  case Nil
  then show ?case by (simp add: adds_refl)
next
  case (Cons dep deps)
  from Cons.prems obtain r1 e1 where
    s1: "check_dep issue_map issue_id loc (report, edges) dep = Inr (r1, e1)"
    and rest: "check_deps issue_map issue_id loc deps (r1, e1) = Inr (report', edges')"
    by (auto split: sum.splits)
  from check_dep_ok [OF s1] Cons.IH [OF rest] show ?case by (rule adds_trans)
qed

lemma check_dependencies_ok:
  "check_dependencies env issue_map items (report, edges) = Inr (report', edges') \<Longrightarrow>
   adds_only ok_finding report report'"
proof (induction items arbitrary: report edges)
  case Nil
  then show ?case by (simp add: adds_refl)
next
  case (Cons item items)
  obtain issue_id line_no issue where item: "item = (issue_id, line_no, issue)" by (cases item)
  show ?case
  proof (cases "dict_get_default issue ''depends_on'' (JList [])")
    case (JList depends_on)
    with Cons.prems item obtain r1 e1 where
      s1: "check_deps issue_map issue_id (issues_path env @ '':'' @ str_int line_no) depends_on
             (report, edges) = Inr (r1, e1)"
      and rest: "check_dependencies env issue_map items (r1, e1) = Inr (report', edges')"
      by (auto split: sum.splits)
    from check_deps_ok [OF s1] Cons.IH [OF rest] show ?thesis by (rule adds_trans)
  qed (use Cons.prems item Cons.IH in auto)
qed

lemma report_cycle_ok:
  "report_cycle env issue_ids edges report = Returns report' \<Longrightarrow> adds_only ok_finding report report'"
  unfolding report_cycle_def
  by (auto split: outcome.splits if_splits
        intro!: adds_error adds_refl ok_error simp: about_execution_context_def)

text \<open>The stages of a run that goes past the meta row and returns.\<close>

lemma check_issues_rows_stages:
  assumes "check_issues_rows env ((n, meta) # issue_rows) report = Returns final"
    and "issue_rows \<noteq> []"
  shows "\<exists>r1 report' issue_map report3 edges.
     check_source env n meta (check_execution_context env n meta (check_meta env n meta report))
       = Inr r1
     \<and> check_issue_rows env issue_rows
           (check_total_issues env n meta (length issue_rows) r1, []) = Inr (report', issue_map)
     \<and> check_dependencies env issue_map issue_map
           (report', map (\<lambda>issue_id. (issue_id, [])) (map fst issue_map)) = Inr (report3, edges)
     \<and> report_cycle env (map fst issue_map) edges report3 = Returns final"
  using assms by (auto simp: check_issues_rows_def split: sum.splits)

lemma check_issues_rows_ok:
  assumes "check_issues_rows env rows report = Returns report'"
  shows "adds_only ok_finding report report'"
proof (cases rows)
  case Nil
  with assms show ?thesis by (simp add: check_issues_rows_def adds_refl)
next
  case (Cons row issue_rows)
  obtain n meta where row: "row = (n, meta)" by (cases row)
  let ?r0 = "check_execution_context env n meta (check_meta env n meta report)"
  have a0: "adds_only ok_finding report ?r0"
    by (blast intro: adds_trans check_meta_ok check_execution_context_ok)
  show ?thesis
  proof (cases "issue_rows = []")
    case True
    with assms Cons row obtain r1 where s: "check_source env n meta ?r0 = Inr r1"
      and r: "report' = error ''No issue rows after meta'' (issues_path env) r1"
      by (auto simp: check_issues_rows_def split: sum.splits)
    have "adds_only ok_finding r1 (error ''No issue rows after meta'' (issues_path env) r1)"
      by (rule adds_error) (auto intro!: ok_error simp: about_execution_context_def)
    with a0 check_source_ok [OF s] r show ?thesis by (blast intro: adds_trans)
  next
    case False
    from check_issues_rows_stages [OF assms [unfolded Cons row] False]
    obtain r1 r3 issue_map r4 edges where s: "check_source env n meta ?r0 = Inr r1"
      and c: "check_issue_rows env issue_rows
                (check_total_issues env n meta (length issue_rows) r1, []) = Inr (r3, issue_map)"
      and d: "check_dependencies env issue_map issue_map
                (r3, map (\<lambda>issue_id. (issue_id, [])) (map fst issue_map)) = Inr (r4, edges)"
      and e: "report_cycle env (map fst issue_map) edges r4 = Returns report'"
      by blast
    have b: "adds_only ok_finding r1 (check_total_issues env n meta (length issue_rows) r1)"
      by (rule check_total_issues_ok)
    from a0 check_source_ok [OF s] b check_issue_rows_ok [OF c] check_dependencies_ok [OF d]
      report_cycle_ok [OF e]
    show ?thesis by (blast intro: adds_trans)
  qed
qed

lemma check_issues_ok:
  assumes "check_issues env = Returns report"
  shows "list_all ok_finding (findings report)"
proof -
  let ?r0 = "\<lparr>name = ''issues'', findings = []\<rparr>"
  from assms obtain r1 content where
    rt: "read_text (issues_path env) (issues_file env) ?r0 = Inr (r1, content)"
    by (auto simp: check_issues_def split: sum.splits)
  have a: "adds_only ok_finding ?r0 r1" by (rule read_text_ok [OF rt])
  have "adds_only ok_finding ?r0 report"
  proof (cases content)
    case None
    with assms rt a show ?thesis by (simp add: check_issues_def)
  next
    case (Some t)
    let ?lines = "filter (\<lambda>line. strip line \<noteq> []) (splitlines t)"
    show ?thesis
    proof (cases "?lines = []")
      case True
      with assms rt Some have "report = error ''JSONL is empty'' (issues_path env) r1"
        by (simp add: check_issues_def)
      moreover have "adds_only ok_finding r1 (error ''JSONL is empty'' (issues_path env) r1)"
        by (rule adds_error) (auto intro!: ok_error simp: about_execution_context_def)
      ultimately show ?thesis using a by (blast intro: adds_trans)
    next
      case False
      with assms rt Some obtain r2 rows where p: "parse_rows env ?lines 1 r1 [] = Inr (r2, rows)"
        by (auto simp: check_issues_def Let_def split: sum.splits)
      with assms rt Some False have "check_issues_rows env rows r2 = Returns report"
        by (simp add: check_issues_def Let_def)
      from a parse_rows_ok [OF p] check_issues_rows_ok [OF this] show ?thesis
        by (blast intro: adds_trans)
    qed
  qed
  then show ?thesis by (auto simp: adds_only_def)
qed

text \<open>Every stage of a run keeps the findings that are there and appends to them.\<close>

lemma count_appended:
  "findings r' = findings r @ new \<Longrightarrow> count_list (findings r') t = count_list (findings r) t + n \<Longrightarrow>
   count_list new t = n"
  by simp

lemma check_issue_appends:
  assumes "check_issue env (line_no, issue) (report, issue_map) = Inr (report', issue_map')"
  shows "\<exists>new. findings report' = findings report @ new"
  using check_issue_ok [OF assms] by (rule adds_prefix)

lemma check_issue_rows_appends:
  assumes "check_issue_rows env rows (report, issue_map) = Inr (report', issue_map')"
  shows "\<exists>new. findings report' = findings report @ new"
  using check_issue_rows_ok [OF assms] by (rule adds_prefix)

lemma after_rows_appends:
  assumes "check_dependencies env issue_map items (report, edges) = Inr (report3, edges')"
    and "report_cycle env issue_ids edges' report3 = Returns final"
  shows "\<exists>new. findings final = findings report @ new"
  using adds_trans [OF check_dependencies_ok [OF assms(1)] report_cycle_ok [OF assms(2)]]
  by (rule adds_prefix)

subsection \<open>A snapshot to run the validator on\<close>

text \<open>
  One environment (every path exists, every ref matches, 990 frames are left when
  \<^verbatim>\<open>detect_cycle\<close> is reached), one meta row (with every
  required field, the given \<^verbatim>\<open>total_issues\<close> and a full \<^verbatim>\<open>execution_context\<close>, and no
  \<^verbatim>\<open>schema_version\<close>) and one issue row with every required field, of which the id, two
  states and the dependencies can be chosen.
\<close>

definition example_env :: env where
  "example_env =
     \<lparr>issues_path = ''issues.jsonl'', issues_file = NoFile, project_root = ''/project'',
      fallback_branch = ''main'', path_exists = (\<lambda>p. Inr True), path_str = (\<lambda>p. p),
      ref_match = (\<lambda>s. Some ''src/main.py''),
      json_loads = (\<lambda>line. JSONDecodeError ''not used''),
      container_str = (\<lambda>v. ''[]''), frames_left = 990\<rparr>"

definition example_meta :: "int \<Rightarrow> jdict" where
  "example_meta total_issues =
     [(''type'', JStr ''meta''), (''plan'', JStr ''docs/plans/plan.md''), (''goal'', JStr ''Build it''),
      (''tech_stack'', JStr ''Python''), (''source'', JStr ''plan.md''), (''total_issues'', JInt total_issues),
      (''execution_context'',
         JDict [(''worktree_path'', JStr ''/project''), (''branch'', JStr ''main''),
                (''base_branch'', JStr ''main'')])]"

definition example_issue :: "json \<Rightarrow> json \<Rightarrow> json \<Rightarrow> json \<Rightarrow> jdict" where
  "example_issue issue_id dev_state git_state depends_on =
     [(''id'', issue_id), (''priority'', JStr ''P0''), (''phase'', JStr ''implementation''),
      (''area'', JStr ''backend''), (''title'', JStr ''Do something''),
      (''description'', JStr ''Details here''), (''depends_on'', depends_on),
      (''acceptance_criteria'', JStr ''Works correctly''), (''test_approach'', JStr ''Unit tests''),
      (''review_initial_requirements'', JStr ''Code review''),
      (''review_regression_requirements'', JStr ''Regression suite''),
      (''dev_state'', dev_state), (''review_initial_state'', JStr ''done''),
      (''review_regression_state'', JStr ''done''), (''git_state'', git_state),
      (''blocked'', JBool False), (''owner'', JStr ''agent''),
      (''refs'', JList [JStr ''src/main.py:1-10'']), (''notes'', JStr [])]"

definition empty_report :: Report where
  "empty_report = \<lparr>name = ''issues'', findings = []\<rparr>"

subsection \<open>Committed issues\<close>

text \<open>
  Claim C3 speaks of every issue record whose \<^verbatim>\<open>git_state\<close> is \<^verbatim>\<open>committed\<close>.  The loop
  body leaves a record whose \<^verbatim>\<open>id\<close> is not a non-empty string with \<^verbatim>\<open>continue\<close>, before
  the committed rule: the record below (id 7, committed, \<^verbatim>\<open>dev_state\<close> pending) gets the
  id finding and no finding about its state.  And the run ends with an exception, and
  so without a report, when the membership test on a priority that is a list raises, or
  when the path check of a ref raises, both before the rule is reached.
\<close>

theorem committed_rule_skipped_counterexample:
  "dict_get (example_issue (JInt 7) (JStr ''pending'') (JStr ''committed'') (JList [])) ''git_state''
     = JStr ''committed''
   \<and> dict_get (example_issue (JInt 7) (JStr ''pending'') (JStr ''committed'') (JList [])) ''dev_state''
     = JStr ''pending''
   \<and> check_issues_rows example_env
       [(1, example_meta 1),
        (2, example_issue (JInt 7) (JStr ''pending'') (JStr ''committed'') (JList []))]
       empty_report
     = Returns \<lparr>name = ''issues'', findings =
         [finding ''ERROR'' ''Issue `id` must be a non-empty string'' ''issues.jsonl:2'']\<rparr>
   \<and> check_issues_rows example_env
       [(1, example_meta 1),
        (2, dict_set ''priority'' (JList [])
              (example_issue (JStr ''A'') (JStr ''pending'') (JStr ''committed'') (JList [])))]
       empty_report
     = Raises (TypeError (''unhashable type: 'list'' @ [CHR 0x27]))
   \<and> check_issues_rows
       (example_env\<lparr>path_exists :=
          (\<lambda>p. if p = ''plan.md'' then Inr True else Inl (OSError ''File name too long''))\<rparr>)
       [(1, example_meta 1),
        (2, example_issue (JStr ''A'') (JStr ''pending'') (JStr ''committed'') (JList []))]
       empty_report
     = Raises (OSError ''File name too long'')"
  by code_simp

text \<open>
  The findings of the committed rule among the findings \<open>new\<close> that the pass of the loop
  body over a record appends: one ERROR \<^verbatim>\<open>Committed issue must have `<field>=done`\<close> at the
  row's location for each of the three state fields that is not \<^verbatim>\<open>done\<close> and none for the
  others, and one ERROR \<^verbatim>\<open>Committed issue cannot be blocked\<close> when \<^verbatim>\<open>blocked\<close> is true and
  none otherwise.
\<close>

definition committed_rule :: "env \<Rightarrow> int \<Rightarrow> jdict \<Rightarrow> Finding list \<Rightarrow> bool" where
  "committed_rule env line_no issue new =
     (count_list new
          (finding ''ERROR'' ''Committed issue must have `dev_state=done`'' (row_loc env line_no))
        = (if dict_get issue ''dev_state'' \<noteq> JStr ''done'' then 1 else 0)
      \<and> count_list new
          (finding ''ERROR'' ''Committed issue must have `review_initial_state=done`''
             (row_loc env line_no))
        = (if dict_get issue ''review_initial_state'' \<noteq> JStr ''done'' then 1 else 0)
      \<and> count_list new
          (finding ''ERROR'' ''Committed issue must have `review_regression_state=done`''
             (row_loc env line_no))
        = (if dict_get issue ''review_regression_state'' \<noteq> JStr ''done'' then 1 else 0)
      \<and> count_list new
          (finding ''ERROR'' ''Committed issue cannot be blocked'' (row_loc env line_no))
        = (if dict_get issue ''blocked'' = JBool True then 1 else 0))"

lemma committed_pass:
  assumes c: "dict_get issue ''git_state'' = JStr ''committed''"
    and id: "usable_id issue issue_id"
    and res: "check_issue env (line_no, issue) (report, issue_map) = Inr (report', issue_map')"
  shows "\<exists>new. findings report' = findings report @ new \<and> committed_rule env line_no issue new"
proof -
  from id have idv: "dict_get issue ''id'' = JStr issue_id" and ne: "strip issue_id \<noteq> []"
    by (simp_all add: usable_id_def)
  from check_issue_appends [OF res] obtain new where
    new: "findings report' = findings report @ new" by blast
  note nc = not_committed_count [OF idv ne res]
  note cc = check_committed_counts [OF c]
  have c1: "count_list (findings report')
           (finding ''ERROR'' ''Committed issue must have `dev_state=done`'' (row_loc env line_no))
         = count_list (findings report)
             (finding ''ERROR'' ''Committed issue must have `dev_state=done`'' (row_loc env line_no))
           + (if dict_get issue ''dev_state'' \<noteq> JStr ''done'' then 1 else 0)"
    using nc [of _ "''must have `dev_state=done`''"] cc(1) by auto
  have c2: "count_list (findings report')
           (finding ''ERROR'' ''Committed issue must have `review_initial_state=done`''
              (row_loc env line_no))
         = count_list (findings report)
             (finding ''ERROR'' ''Committed issue must have `review_initial_state=done`''
                (row_loc env line_no))
           + (if dict_get issue ''review_initial_state'' \<noteq> JStr ''done'' then 1 else 0)"
    using nc [of _ "''must have `review_initial_state=done`''"] cc(2) by auto
  have c3: "count_list (findings report')
           (finding ''ERROR'' ''Committed issue must have `review_regression_state=done`''
              (row_loc env line_no))
         = count_list (findings report)
             (finding ''ERROR'' ''Committed issue must have `review_regression_state=done`''
                (row_loc env line_no))
           + (if dict_get issue ''review_regression_state'' \<noteq> JStr ''done'' then 1 else 0)"
    using nc [of _ "''must have `review_regression_state=done`''"] cc(3) by auto
  have c4: "count_list (findings report')
           (finding ''ERROR'' ''Committed issue cannot be blocked'' (row_loc env line_no))
         = count_list (findings report)
             (finding ''ERROR'' ''Committed issue cannot be blocked'' (row_loc env line_no))
           + (if dict_get issue ''blocked'' = JBool True then 1 else 0)"
    using nc [of _ "''cannot be blocked''"] cc(4) by auto
  have "committed_rule env line_no issue new"
    unfolding committed_rule_def
    using count_appended [OF new c1] count_appended [OF new c2] count_appended [OF new c3]
      count_appended [OF new c4]
    by (intro conjI)
  with new show ?thesis by blast
qed

lemma committed_pending:
  assumes "committed_rule env line_no issue new"
    and "dict_get issue ''dev_state'' = JStr ''pending''"
  shows "finding ''ERROR'' ''Committed issue must have `dev_state=done`'' (row_loc env line_no)
           \<in> set new"
proof -
  from assms have "count_list new
      (finding ''ERROR'' ''Committed issue must have `dev_state=done`'' (row_loc env line_no)) \<noteq> 0"
    by (simp add: committed_rule_def)
  then show ?thesis by (simp only: count_list_0_iff not_not)
qed

text \<open>
  Claim C3, amended.  Take an issue record whose \<^verbatim>\<open>git_state\<close> is \<^verbatim>\<open>committed\<close> and whose
  \<^verbatim>\<open>id\<close> is a non-empty string.  When its priority and state values are not lists or
  objects and the path check of each of its refs returns, the pass of the loop body over
  the record returns.  Whenever the pass returns, the findings it appends hold exactly the
  findings of the committed rule, and with \<^verbatim>\<open>dev_state\<close> pending an ERROR naming both the
  committed state and \<^verbatim>\<open>done\<close>.  And in every run over a meta row and issue rows that
  returns a report, the loop reaches the record, its pass returns with these findings,
  and the returned report holds everything the pass appended.
\<close>

theorem committed_issue_rule:
  assumes "dict_get issue ''git_state'' = JStr ''committed''" and "usable_id issue issue_id"
  shows "(row_checkable env issue \<longrightarrow>
            (\<exists>r2 m2. check_issue env (line_no, issue) (report, issue_map) = Inr (r2, m2)))
         \<and> (check_issue env (line_no, issue) (report, issue_map) = Inr (report', issue_map') \<longrightarrow>
              (\<exists>new. findings report' = findings report @ new
                 \<and> committed_rule env line_no issue new
                 \<and> (dict_get issue ''dev_state'' = JStr ''pending'' \<longrightarrow>
                      finding ''ERROR'' ''Committed issue must have `dev_state=done`''
                        (row_loc env line_no) \<in> set new)))
         \<and> (check_issues_rows env (meta_row # pre @ (line_no, issue) # post) start = Returns final \<longrightarrow>
              (\<exists>r0 r1 m1 r2 m2 new rest.
                 check_issue_rows env pre (r0, []) = Inr (r1, m1)
                 \<and> check_issue env (line_no, issue) (r1, m1) = Inr (r2, m2)
                 \<and> findings r2 = findings r1 @ new
                 \<and> committed_rule env line_no issue new
                 \<and> findings final = findings r2 @ rest
                 \<and> (dict_get issue ''dev_state'' = JStr ''pending'' \<longrightarrow>
                      finding ''ERROR'' ''Committed issue must have `dev_state=done`''
                        (row_loc env line_no) \<in> set (findings final))))"
proof (intro conjI impI)
  assume "row_checkable env issue"
  from check_issue_returns [OF this]
  show "\<exists>r2 m2. check_issue env (line_no, issue) (report, issue_map) = Inr (r2, m2)" .
next
  assume "check_issue env (line_no, issue) (report, issue_map) = Inr (report', issue_map')"
  from committed_pass [OF assms this] obtain new where
    new: "findings report' = findings report @ new" "committed_rule env line_no issue new"
    by blast
  with committed_pending [OF new(2)]
  show "\<exists>new. findings report' = findings report @ new
          \<and> committed_rule env line_no issue new
          \<and> (dict_get issue ''dev_state'' = JStr ''pending'' \<longrightarrow>
               finding ''ERROR'' ''Committed issue must have `dev_state=done`''
                 (row_loc env line_no) \<in> set new)"
    by blast
next
  assume run: "check_issues_rows env (meta_row # pre @ (line_no, issue) # post) start = Returns final"
  obtain n meta where m: "meta_row = (n, meta)" by (cases meta_row)
  have ne: "pre @ (line_no, issue) # post \<noteq> []" by simp
  from check_issues_rows_stages [OF run [unfolded m] ne]
  obtain r0 report' issue_map' report3 edges where
    loop: "check_issue_rows env (pre @ (line_no, issue) # post) (r0, []) = Inr (report', issue_map')"
    and deps: "check_dependencies env issue_map' issue_map'
                 (report', map (\<lambda>issue_id. (issue_id, [])) (map fst issue_map')) = Inr (report3, edges)"
    and cyc: "report_cycle env (map fst issue_map') edges report3 = Returns final"
    by blast
  from check_issue_rows_split [OF loop] obtain r1 m1 r2 m2 where
    p: "check_issue_rows env pre (r0, []) = Inr (r1, m1)"
    and s: "check_issue env (line_no, issue) (r1, m1) = Inr (r2, m2)"
    and q: "check_issue_rows env post (r2, m2) = Inr (report', issue_map')"
    by auto
  from committed_pass [OF assms s] obtain new where
    new: "findings r2 = findings r1 @ new" "committed_rule env line_no issue new"
    by blast
  from check_issue_rows_appends [OF q] after_rows_appends [OF deps cyc]
  obtain rest where rest: "findings final = findings r2 @ rest" by auto
  have "finding ''ERROR'' ''Committed issue must have `dev_state=done`'' (row_loc env line_no)
          \<in> set (findings final)" if "dict_get issue ''dev_state'' = JStr ''pending''"
    using committed_pending [OF new(2) that] new(1) rest by simp
  with p s new rest
  show "\<exists>r0 r1 m1 r2 m2 new rest.
          check_issue_rows env pre (r0, []) = Inr (r1, m1)
          \<and> check_issue env (line_no, issue) (r1, m1) = Inr (r2, m2)
          \<and> findings r2 = findings r1 @ new
          \<and> committed_rule env line_no issue new
          \<and> findings final = findings r2 @ rest
          \<and> (dict_get issue ''dev_state'' = JStr ''pending'' \<longrightarrow>
               finding ''ERROR'' ''Committed issue must have `dev_state=done`''
                 (row_loc env line_no) \<in> set (findings final))"
    by blast
qed

lemma example_committed_run:
  "check_issues_rows example_env
     ((1, example_meta 1) # []
        @ (2, example_issue (JStr ''A'') (JStr ''pending'') (JStr ''committed'') (JList [])) # [])
     empty_report
   = Returns \<lparr>name = ''issues'', findings =
       [finding ''ERROR'' ''Committed issue must have `dev_state=done`'' ''issues.jsonl:2'']\<rparr>"
  by code_simp

theorem committed_issue_rule_witness:
  "dict_get (example_issue (JStr ''A'') (JStr ''pending'') (JStr ''committed'') (JList [])) ''git_state''
     = JStr ''committed''
   \<and> usable_id (example_issue (JStr ''A'') (JStr ''pending'') (JStr ''committed'') (JList [])) ''A''
   \<and> row_checkable example_env
        (example_issue (JStr ''A'') (JStr ''pending'') (JStr ''committed'') (JList []))
   \<and> (\<exists>r2 m2.
         check_issue example_env
           (2, example_issue (JStr ''A'') (JStr ''pending'') (JStr ''committed'') (JList []))
           (empty_report, []) = Inr (r2, m2))
   \<and> check_issues_rows example_env
        [(1, example_meta 1),
         (2, example_issue (JStr ''A'') (JStr ''pending'') (JStr ''committed'') (JList []))]
        empty_report
      = Returns \<lparr>name = ''issues'', findings =
          [finding ''ERROR'' ''Committed issue must have `dev_state=done`'' ''issues.jsonl:2'']\<rparr>
   \<and> finding ''ERROR'' ''Committed issue must have `dev_state=done`'' (row_loc example_env 2)
        \<in> set [finding ''ERROR'' ''Committed issue must have `dev_state=done`'' ''issues.jsonl:2'']"
proof -
  let ?i = "example_issue (JStr ''A'') (JStr ''pending'') (JStr ''committed'') (JList [])"
  have a: "dict_get ?i ''git_state'' = JStr ''committed''" "dict_get ?i ''dev_state'' = JStr ''pending''"
    by code_simp+
  have b: "usable_id ?i ''A''" unfolding usable_id_def by code_simp
  have c: "row_checkable example_env ?i" by code_simp
  note t = committed_issue_rule [OF a(1) b, of example_env 2 empty_report "[]" _ _
      "(1, example_meta 1)" "[]" "[]" empty_report]
  from t [THEN conjunct1] c have d: "\<exists>r2 m2. check_issue example_env (2, ?i) (empty_report, []) = Inr (r2, m2)"
    by blast
  from t [THEN conjunct2, THEN conjunct2, rule_format, OF example_committed_run] a(2)
  have e: "finding ''ERROR'' ''Committed issue must have `dev_state=done`'' (row_loc example_env 2)
        \<in> set [finding ''ERROR'' ''Committed issue must have `dev_state=done`'' ''issues.jsonl:2'']"
    by auto
  from example_committed_run have f: "check_issues_rows example_env [(1, example_meta 1), (2, ?i)]
        empty_report
      = Returns \<lparr>name = ''issues'', findings =
          [finding ''ERROR'' ''Committed issue must have `dev_state=done`'' ''issues.jsonl:2'']\<rparr>"
    by simp
  from a(1) b c d e f show ?thesis by (intro conjI)
qed

subsection \<open>Duplicate ids\<close>

text \<open>
  Claim C6 says that the first of the records sharing an id is the one kept.  The loop
  body stores \<^verbatim>\<open>issue_map[issue_id] = (line_no, issue)\<close> for every record with a usable id,
  so a later record replaces an earlier one.  Below, line 2 has no dependencies and line 3,
  with the same id, depends on itself: the map ends with the record of line 3, and the
  dependency pass reports the self-dependency of line 3.
\<close>

theorem duplicate_first_kept_counterexample:
  "check_issue_rows example_env
     [(2, example_issue (JStr ''A'') (JStr ''pending'') (JStr ''uncommitted'') (JList [])),
      (3, example_issue (JStr ''A'') (JStr ''pending'') (JStr ''uncommitted'') (JList [JStr ''A'']))]
     (empty_report, [])
   = Inr (\<lparr>name = ''issues'', findings =
            [finding ''ERROR'' ''Duplicate issue id `A`'' ''issues.jsonl:3'']\<rparr>,
          [(''A'', 3, example_issue (JStr ''A'') (JStr ''pending'') (JStr ''uncommitted'')
                       (JList [JStr ''A'']))])
   \<and> check_issues_rows example_env
       [(1, example_meta 2),
        (2, example_issue (JStr ''A'') (JStr ''pending'') (JStr ''uncommitted'') (JList [])),
        (3, example_issue (JStr ''A'') (JStr ''pending'') (JStr ''uncommitted'') (JList [JStr ''A'']))]
       empty_report
     = Returns \<lparr>name = ''issues'', findings =
         [finding ''ERROR'' ''Duplicate issue id `A`'' ''issues.jsonl:3'',
          finding ''ERROR'' ''Issue cannot depend on itself'' ''issues.jsonl:3'']\<rparr>"
  by code_simp

text \<open>
  Claim C6, amended.  Take issue rows and in them a record with a usable id.  A duplicate
  ends nothing: the loop over the rows returns whenever every row is checkable (no
  priority or state value is a list or an object, and the path check of every ref
  returns).  Whenever the loop returns, the pass over the record has appended exactly one
  ERROR \<^verbatim>\<open>Duplicate issue id\<close> at its location when an earlier record has the same id, and
  none otherwise; the report after the loop holds everything the pass appended; the keys
  of the issue map are the usable ids in the order of their first occurrence; and when no
  later record shares the id, the map holds this record, the last with that id, under the
  id.  And in every run over a meta row and these issue rows that returns a report, the
  issue map of the loop is the one the dependency pass looks ids up in and whose keys are
  the nodes of the cycle search.
\<close>

theorem duplicate_id_last_kept:
  assumes "usable_id issue issue_id"
  shows "(list_all (\<lambda>row. row_checkable env (snd row)) (pre @ (line_no, issue) # post) \<longrightarrow>
            (\<exists>st'. check_issue_rows env (pre @ (line_no, issue) # post) (report, []) = Inr st'))
         \<and> (check_issue_rows env (pre @ (line_no, issue) # post) (report, [])
               = Inr (report', issue_map') \<longrightarrow>
              (\<exists>r1 m1 r2 m2 new rest.
                 check_issue_rows env pre (report, []) = Inr (r1, m1)
                 \<and> check_issue env (line_no, issue) (r1, m1) = Inr (r2, m2)
                 \<and> findings r2 = findings r1 @ new
                 \<and> count_list new
                      (finding ''ERROR'' (''Duplicate issue id `'' @ issue_id @ ''`'')
                         (row_loc env line_no))
                    = (if \<exists>row \<in> set pre. dict_get (snd row) ''id'' = JStr issue_id then 1 else 0)
                 \<and> findings report' = findings r2 @ rest
                 \<and> map fst issue_map' = first_seen (usable_ids (pre @ (line_no, issue) # post))
                 \<and> ((\<forall>row \<in> set post. dict_get (snd row) ''id'' \<noteq> JStr issue_id) \<longrightarrow>
                      map_of issue_map' issue_id = Some (line_no, issue))))
         \<and> (check_issues_rows env (meta_row # pre @ (line_no, issue) # post) start = Returns final \<longrightarrow>
              (\<exists>r0 r3 issue_map3 r4 edges.
                 check_issue_rows env (pre @ (line_no, issue) # post) (r0, []) = Inr (r3, issue_map3)
                 \<and> check_dependencies env issue_map3 issue_map3
                      (r3, map (\<lambda>issue_id. (issue_id, [])) (map fst issue_map3)) = Inr (r4, edges)
                 \<and> report_cycle env (map fst issue_map3) edges r4 = Returns final))"
proof (intro conjI impI)
  assume "list_all (\<lambda>row. row_checkable env (snd row)) (pre @ (line_no, issue) # post)"
  from check_issue_rows_returns [OF this]
  show "\<exists>st'. check_issue_rows env (pre @ (line_no, issue) # post) (report, []) = Inr st'" .
next
  assume loop: "check_issue_rows env (pre @ (line_no, issue) # post) (report, [])
                  = Inr (report', issue_map')"
  from assms have idv: "dict_get issue ''id'' = JStr issue_id" and ne: "strip issue_id \<noteq> []"
    by (simp_all add: usable_id_def)
  from check_issue_rows_split [OF loop] obtain r1 m1 r2 m2 where
    p: "check_issue_rows env pre (report, []) = Inr (r1, m1)"
    and s: "check_issue env (line_no, issue) (r1, m1) = Inr (r2, m2)"
    and q: "check_issue_rows env post (r2, m2) = Inr (report', issue_map')"
    by auto
  from check_issue_appends [OF s] obtain new where new: "findings r2 = findings r1 @ new" by blast
  from check_issue_rows_appends [OF q] obtain rest where
    rest: "findings report' = findings r2 @ rest" by blast
  from check_issue_rows_keys [OF p] have "fst ` set m1 = {s. \<exists>row \<in> set pre. usable_id (snd row) s}"
    by simp
  then have hk: "has_key m1 issue_id = (\<exists>row \<in> set pre. dict_get (snd row) ''id'' = JStr issue_id)"
    using ne by (auto simp: has_key_iff usable_id_def)
  from duplicate_count [OF idv ne s] hk
  have "count_list (findings r2)
           (finding ''ERROR'' (''Duplicate issue id `'' @ issue_id @ ''`'') (row_loc env line_no))
         = count_list (findings r1)
             (finding ''ERROR'' (''Duplicate issue id `'' @ issue_id @ ''`'') (row_loc env line_no))
           + (if \<exists>row \<in> set pre. dict_get (snd row) ''id'' = JStr issue_id then 1 else 0)"
    by simp
  from count_appended [OF new this]
  have c: "count_list new
             (finding ''ERROR'' (''Duplicate issue id `'' @ issue_id @ ''`'') (row_loc env line_no))
           = (if \<exists>row \<in> set pre. dict_get (snd row) ''id'' = JStr issue_id then 1 else 0)" .
  have "map fst ([] :: issue_map) = first_seen []" by (simp add: first_seen_def)
  from check_issue_rows_order [OF loop this]
  have o: "map fst issue_map' = first_seen (usable_ids (pre @ (line_no, issue) # post))" by simp
  have m: "map_of issue_map' issue_id = Some (line_no, issue)"
    if last: "\<forall>row \<in> set post. dict_get (snd row) ''id'' \<noteq> JStr issue_id"
  proof -
    from check_issue_map [OF s, of issue_id] assms
    have "map_of m2 issue_id = Some (line_no, issue)" by (simp add: map_of_dict_set)
    with check_issue_rows_other_key [OF q last] show ?thesis by simp
  qed
  from p s new c rest o m
  show "\<exists>r1 m1 r2 m2 new rest.
          check_issue_rows env pre (report, []) = Inr (r1, m1)
          \<and> check_issue env (line_no, issue) (r1, m1) = Inr (r2, m2)
          \<and> findings r2 = findings r1 @ new
          \<and> count_list new
               (finding ''ERROR'' (''Duplicate issue id `'' @ issue_id @ ''`'') (row_loc env line_no))
             = (if \<exists>row \<in> set pre. dict_get (snd row) ''id'' = JStr issue_id then 1 else 0)
          \<and> findings report' = findings r2 @ rest
          \<and> map fst issue_map' = first_seen (usable_ids (pre @ (line_no, issue) # post))
          \<and> ((\<forall>row \<in> set post. dict_get (snd row) ''id'' \<noteq> JStr issue_id) \<longrightarrow>
               map_of issue_map' issue_id = Some (line_no, issue))"
    by blast
next
  assume run: "check_issues_rows env (meta_row # pre @ (line_no, issue) # post) start = Returns final"
  obtain n meta where m: "meta_row = (n, meta)" by (cases meta_row)
  have ne: "pre @ (line_no, issue) # post \<noteq> []" by simp
  from check_issues_rows_stages [OF run [unfolded m] ne]
  show "\<exists>r0 r3 issue_map3 r4 edges.
          check_issue_rows env (pre @ (line_no, issue) # post) (r0, []) = Inr (r3, issue_map3)
          \<and> check_dependencies env issue_map3 issue_map3
               (r3, map (\<lambda>issue_id. (issue_id, [])) (map fst issue_map3)) = Inr (r4, edges)
          \<and> report_cycle env (map fst issue_map3) edges r4 = Returns final"
    by blast
qed

lemma example_duplicate_loop:
  "check_issue_rows example_env
     ([(2, example_issue (JStr ''A'') (JStr ''pending'') (JStr ''uncommitted'') (JList []))]
      @ (3, example_issue (JStr ''A'') (JStr ''pending'') (JStr ''uncommitted'') (JList [JStr ''A'']))
      # [])
     (empty_report, [])
   = Inr (\<lparr>name = ''issues'', findings =
            [finding ''ERROR'' ''Duplicate issue id `A`'' ''issues.jsonl:3'']\<rparr>,
          [(''A'', 3, example_issue (JStr ''A'') (JStr ''pending'') (JStr ''uncommitted'')
                       (JList [JStr ''A'']))])"
  by code_simp

theorem duplicate_id_last_kept_witness:
  "usable_id (example_issue (JStr ''A'') (JStr ''pending'') (JStr ''uncommitted'') (JList [JStr ''A''])) ''A''
   \<and> list_all (\<lambda>row. row_checkable example_env (snd row))
        ([(2, example_issue (JStr ''A'') (JStr ''pending'') (JStr ''uncommitted'') (JList []))]
         @ (3, example_issue (JStr ''A'') (JStr ''pending'') (JStr ''uncommitted'') (JList [JStr ''A'']))
         # [])
   \<and> (\<exists>st'. check_issue_rows example_env
          ([(2, example_issue (JStr ''A'') (JStr ''pending'') (JStr ''uncommitted'') (JList []))]
           @ (3, example_issue (JStr ''A'') (JStr ''pending'') (JStr ''uncommitted'') (JList [JStr ''A'']))
           # [])
          (empty_report, []) = Inr st')
   \<and> (\<exists>r1 m1 r2 m2 new.
        check_issue_rows example_env
          [(2, example_issue (JStr ''A'') (JStr ''pending'') (JStr ''uncommitted'') (JList []))]
          (empty_report, []) = Inr (r1, m1)
        \<and> check_issue example_env
            (3, example_issue (JStr ''A'') (JStr ''pending'') (JStr ''uncommitted'') (JList [JStr ''A'']))
            (r1, m1) = Inr (r2, m2)
        \<and> findings r2 = findings r1 @ new
        \<and> count_list new (finding ''ERROR'' (''Duplicate issue id `'' @ ''A'' @ ''`'') (row_loc example_env 3))
            = 1)
   \<and> map_of [(''A'', 3 :: int, example_issue (JStr ''A'') (JStr ''pending'') (JStr ''uncommitted'')
                       (JList [JStr ''A'']))] ''A''
       = Some (3, example_issue (JStr ''A'') (JStr ''pending'') (JStr ''uncommitted'')
                    (JList [JStr ''A'']))"
proof -
  let ?i2 = "example_issue (JStr ''A'') (JStr ''pending'') (JStr ''uncommitted'') (JList [])"
  let ?i3 = "example_issue (JStr ''A'') (JStr ''pending'') (JStr ''uncommitted'') (JList [JStr ''A''])"
  let ?m = "[(''A'', 3 :: int, ?i3)]"
  have a: "usable_id ?i3 ''A''" unfolding usable_id_def by code_simp
  have b: "list_all (\<lambda>row. row_checkable example_env (snd row)) ([(2, ?i2)] @ (3, ?i3) # [])"
    by code_simp
  have c: "\<forall>row \<in> set []. dict_get (snd row) ''id'' \<noteq> JStr ''A''" by simp
  have d: "\<exists>row \<in> set [(2, ?i2)]. dict_get (snd row) ''id'' = JStr ''A''"
    by (simp add: example_issue_def dict_get_def dict_get_default_def)
  note t = duplicate_id_last_kept [OF a, of example_env "[(2, ?i2)]" 3 "[]" empty_report]
  from t [THEN conjunct1] b
  have e: "\<exists>st'. check_issue_rows example_env ([(2, ?i2)] @ (3, ?i3) # []) (empty_report, []) = Inr st'"
    by blast
  from t [THEN conjunct2, THEN conjunct1, rule_format, OF example_duplicate_loop,
      unfolded if_P [OF d]] c
  obtain r1 m1 r2 m2 new where
    f: "check_issue_rows example_env [(2, ?i2)] (empty_report, []) = Inr (r1, m1)"
      "check_issue example_env (3, ?i3) (r1, m1) = Inr (r2, m2)"
      "findings r2 = findings r1 @ new"
      "count_list new (finding ''ERROR'' (''Duplicate issue id `'' @ ''A'' @ ''`'') (row_loc example_env 3))
         = 1"
    and g: "map_of ?m ''A'' = Some (3, ?i3)"
    by blast
  from f have h: "\<exists>r1 m1 r2 m2 new.
        check_issue_rows example_env [(2, ?i2)] (empty_report, []) = Inr (r1, m1)
        \<and> check_issue example_env (3, ?i3) (r1, m1) = Inr (r2, m2)
        \<and> findings r2 = findings r1 @ new
        \<and> count_list new (finding ''ERROR'' (''Duplicate issue id `'' @ ''A'' @ ''`'') (row_loc example_env 3))
            = 1"
    by blast
  from a b e h g show ?thesis by (intro conjI)
qed

subsection \<open>The execution context and the schema version\<close>

lemma check_execution_context_info:
  "adds_only (\<lambda>f. severity f = ''INFO'' \<and> about_execution_context (message f)) report
     (check_execution_context env meta_line_no meta report)"
proof (cases "dict_get meta ''execution_context''")
  case (JDict ec)
  then show ?thesis
    unfolding check_execution_context_def Let_def
    by (simp only: json.case)
      (rule adds_foldl, rule adds_if_info, simp add: about_execution_context_def)
qed (simp_all only: check_execution_context_def Let_def json.case,
     (rule adds_info, simp add: about_execution_context_def)+)

text \<open>
  Claim C4.  The inspection of \<^verbatim>\<open>execution_context\<close> only appends findings of severity INFO,
  each with a message about \<^verbatim>\<open>execution_context\<close>, whatever the meta record holds (the key
  absent or null, a sub-field absent or blank, a value that is not an object).  And in
  every report \<^verbatim>\<open>check_issues\<close> returns, every finding with a message about
  \<^verbatim>\<open>execution_context\<close> has severity INFO, so none is an ERROR or a WARN.
\<close>

theorem execution_context_findings_are_info:
  "(\<exists>new. findings (check_execution_context env meta_line_no meta report) = findings report @ new
          \<and> list_all (\<lambda>f. severity f = ''INFO'' \<and> about_execution_context (message f)) new)
   \<and> (check_issues env = Returns rep \<longrightarrow>
        (\<forall>f \<in> set (findings rep). about_execution_context (message f) \<longrightarrow> severity f = ''INFO''))"
proof (intro conjI impI ballI)
  show "\<exists>new. findings (check_execution_context env meta_line_no meta report) = findings report @ new
          \<and> list_all (\<lambda>f. severity f = ''INFO'' \<and> about_execution_context (message f)) new"
    using check_execution_context_info [of report env meta_line_no meta]
    by (simp add: adds_only_def)
next
  fix f
  assume r: "check_issues env = Returns rep" and f: "f \<in> set (findings rep)"
    and a: "about_execution_context (message f)"
  from check_issues_ok [OF r] f have "ok_finding f" by (simp add: list_all_iff)
  with a show "severity f = ''INFO''" by (simp add: ok_finding_def)
qed

definition example_file_env :: "jdict \<Rightarrow> jdict \<Rightarrow> env" where
  "example_file_env meta issue =
     example_env
       \<lparr>issues_file := Text (''m'' @ [CHR 0x0A] @ ''i'' @ [CHR 0x0A]),
        json_loads := (\<lambda>line. if line = ''m'' then Loaded (JDict meta) else Loaded (JDict issue))\<rparr>"

definition meta_without_context :: jdict where
  "meta_without_context =
     [(''type'', JStr ''meta''), (''plan'', JStr ''docs/plans/plan.md''), (''goal'', JStr ''Build it''),
      (''tech_stack'', JStr ''Python''), (''source'', JStr ''plan.md''), (''total_issues'', JInt 1)]"

lemma example_run:
  "check_issues (example_file_env meta_without_context
      (example_issue (JStr ''A'') (JStr ''pending'') (JStr ''uncommitted'') (JList [])))
   = Returns \<lparr>name = ''issues'', findings =
       [finding ''INFO''
          ''Meta `execution_context` missing; using fallback context (project_root/current_branch)''
          ''issues.jsonl:1'']\<rparr>"
  by code_simp

theorem execution_context_findings_are_info_witness:
  "check_issues (example_file_env meta_without_context
      (example_issue (JStr ''A'') (JStr ''pending'') (JStr ''uncommitted'') (JList [])))
   = Returns \<lparr>name = ''issues'', findings =
       [finding ''INFO''
          ''Meta `execution_context` missing; using fallback context (project_root/current_branch)''
          ''issues.jsonl:1'']\<rparr>
   \<and> about_execution_context
        ''Meta `execution_context` missing; using fallback context (project_root/current_branch)''
   \<and> severity (finding ''INFO''
          ''Meta `execution_context` missing; using fallback context (project_root/current_branch)''
          ''issues.jsonl:1'') = ''INFO''"
proof -
  let ?f = "finding ''INFO''
          ''Meta `execution_context` missing; using fallback context (project_root/current_branch)''
          ''issues.jsonl:1''"
  have a: "about_execution_context (message ?f)"
    by (simp add: about_execution_context_def)
  have b: "?f \<in> set (findings \<lparr>name = ''issues'', findings = [?f]\<rparr>)" by simp
  from execution_context_findings_are_info [THEN conjunct2, rule_format, OF example_run b a]
    example_run a
  show ?thesis by simp
qed

lemma check_issues_never_warns:
  assumes "check_issues env = Returns rep"
  shows "warnings rep = 0"
proof -
  from check_issues_ok [OF assms] have "\<forall>f \<in> set (findings rep). severity f \<noteq> ''WARN''"
    by (auto simp: list_all_iff ok_finding_def)
  then show ?thesis by (simp add: warnings_def filter_empty_conv)
qed

text \<open>
  Claim C5 on the code.  \<^verbatim>\<open>check_issues\<close> never reads \<^verbatim>\<open>schema_version\<close> and never calls
  \<^verbatim>\<open>warn\<close> (\<open>check_issues_never_warns\<close>): a snapshot whose meta record has no
  \<^verbatim>\<open>schema_version\<close> gets no finding at all, and so does the same snapshot with the
  unknown version 999.
\<close>

theorem schema_version_not_checked:
  "\<not> has_key (example_meta 1) ''schema_version''
   \<and> check_issues_rows example_env
       [(1, example_meta 1),
        (2, example_issue (JStr ''A'') (JStr ''pending'') (JStr ''uncommitted'') (JList []))]
       empty_report = Returns empty_report
   \<and> check_issues_rows example_env
       [(1, (''schema_version'', JInt 999) # example_meta 1),
        (2, example_issue (JStr ''A'') (JStr ''pending'') (JStr ''uncommitted'') (JList []))]
       empty_report = Returns empty_report"
  by code_simp

section \<open>The plan validator\<close>

text \<open>
  \<^verbatim>\<open>check_plan\<close> from the point where \<^verbatim>\<open>parse_tasks\<close> has returned the tasks
  \<^verbatim>\<open>(task_id, title, start_line, block)\<close>: the loop over the tasks and the cycle search.
  \<^verbatim>\<open>task_ids\<close> is a Python set, which the code iterates to build the edge dictionary and
  which \<^verbatim>\<open>detect_cycle\<close> iterates again; the list \<open>task_ids\<close> here is that iteration
  order; \<open>frames\<close> is the number of frames left for the calls of \<^verbatim>\<open>dfs\<close> when
  \<^verbatim>\<open>detect_cycle\<close> is reached.  \<^verbatim>\<open>parse_depends\<close> collects the groups of
  \<^verbatim>\<open>Task\s+([0-9]+(?:\.[0-9]+)?)\<close>, matched without regard to case, scanning from the left
  and resuming after each match.  The loop stores \<^verbatim>\<open>edges[task_id] = deps\<close> with every
  parsed reference, before it reports the unknown and the self references.
\<close>

definition isdigit :: "char \<Rightarrow> bool" where
  "isdigit c = (48 \<le> (of_char c :: nat) \<and> (of_char c :: nat) \<le> 57)"

definition match_task_ref :: "string \<Rightarrow> (string \<times> string) option" where
  "match_task_ref s =
     (if 4 \<le> length s \<and> map lower_char (take 4 s) = ''task'' then
        (let s1 = drop 4 s; s2 = dropWhile isspace s1;
             major = takeWhile isdigit s2; s3 = dropWhile isdigit s2
         in if s2 = s1 \<or> major = [] then None
            else (case s3 of
                    [] \<Rightarrow> Some (major, s3)
                  | c # s4 \<Rightarrow>
                      if c = CHR ''.'' \<and> takeWhile isdigit s4 \<noteq> []
                      then Some (major @ ''.'' @ takeWhile isdigit s4, dropWhile isdigit s4)
                      else Some (major, s3)))
      else None)"

lemma match_task_ref_shorter:
  assumes "match_task_ref s = Some (g, rest)"
  shows "length rest < length s"
proof -
  let ?s1 = "drop 4 s"
  let ?s2 = "dropWhile isspace ?s1"
  let ?s3 = "dropWhile isdigit ?s2"
  from assms have l: "4 \<le> length s"
    by (simp add: match_task_ref_def split: if_splits)
  have a: "length ?s3 \<le> length ?s2" by (rule length_dropWhile_le)
  have b: "length ?s2 \<le> length ?s1" by (rule length_dropWhile_le)
  from l have c: "length ?s1 < length s" by simp
  from assms have "rest = ?s3 \<or> (\<exists>c s4. ?s3 = c # s4 \<and> rest = dropWhile isdigit s4)"
    by (auto simp: match_task_ref_def Let_def split: if_splits list.splits)
  then show ?thesis
  proof
    assume "rest = ?s3"
    with a b c show ?thesis by simp
  next
    assume "\<exists>c s4. ?s3 = c # s4 \<and> rest = dropWhile isdigit s4"
    then obtain c s4 where s3: "?s3 = c # s4" and r: "rest = dropWhile isdigit s4" by blast
    have "length rest \<le> length s4" unfolding r by (rule length_dropWhile_le)
    also have "\<dots> < length ?s3" by (simp add: s3)
    finally show ?thesis using a b c by simp
  qed
qed

function findall_task_ref :: "string \<Rightarrow> string list" where
  "findall_task_ref [] = []"
| "findall_task_ref (c # s) =
     (case match_task_ref (c # s) of
        Some (g, rest) \<Rightarrow> g # findall_task_ref rest
      | None \<Rightarrow> findall_task_ref s)"
  by pat_completeness auto

termination findall_task_ref
proof (relation "measure length")
  show "wf (measure length)" by simp
next
  fix c s x2 g rest
  assume "match_task_ref (c # s) = Some x2" and "(g, rest) = x2"
  then have "match_task_ref (c # s) = Some (g, rest)" by simp
  from match_task_ref_shorter [OF this] show "(rest, c # s) \<in> measure length" by simp
next
  fix c s
  show "(s, c # s) \<in> measure length" by simp
qed

definition parse_depends :: "string \<Rightarrow> string list" where
  "parse_depends raw_value =
     (let v = strip raw_value in
      if v = [] \<or> map lower_char v = ''none'' then [] else findall_task_ref v)"

type_synonym task = "string \<times> string \<times> int \<times> string list"

definition required_fields :: "string list" where
  "required_fields =
     [''Priority'', ''Area'', ''Depends On'', ''Acceptance Criteria'', ''Review (Dev)'',
      ''Review (Regression)'']"

definition check_task_deps :: "string list \<Rightarrow> string \<Rightarrow> string \<Rightarrow> string list \<Rightarrow> Report \<Rightarrow> Report" where
  "check_task_deps task_ids task_id loc deps report =
     foldl (\<lambda>r dep.
              (let r1 = (if dep \<notin> set task_ids
                         then error (''Task '' @ task_id @ '' depends on unknown Task '' @ dep) loc r
                         else r)
               in if dep = task_id
                  then error (''Task '' @ task_id @ '' cannot depend on itself'') loc r1 else r1))
       report deps"

definition check_task ::
  "string \<Rightarrow> string list \<Rightarrow> task \<Rightarrow> Report \<times> edges \<Rightarrow> Report \<times> edges" where
  "check_task plan_path task_ids task st =
     (case (task, st) of ((task_id, title, start_line, block), (report, edges)) \<Rightarrow>
      let loc = plan_path @ '':'' @ str_int start_line;
          report1 = foldl (\<lambda>r field_name.
                             if extract_field block field_name = []
                             then error (''Task '' @ task_id @ '' ('' @ title @ '') missing field `''
                                         @ field_name @ ''`'') loc r
                             else r)
                      report required_fields;
          priority = extract_field block ''Priority'';
          report2 = (if priority \<noteq> [] \<and> priority \<notin> set [''P0'', ''P1'', ''P2'']
                     then error (''Task '' @ task_id @ '' invalid Priority `'' @ priority @ ''`'') loc
                            report1
                     else report1);
          depends_raw = extract_field block ''Depends On'';
          deps = parse_depends depends_raw;
          edges1 = dict_set task_id deps edges;
          report3 = (if depends_raw \<noteq> [] \<and> map lower_char depends_raw \<noteq> ''none'' \<and> deps = []
                     then error (''Task '' @ task_id @ '' has invalid Depends On `'' @ depends_raw
                                 @ ''`'') loc report2
                     else report2);
          report4 = check_task_deps task_ids task_id loc deps report3;
          report5 = (if \<not> list_ex (\<lambda>line. take 10 (strip line) = ''**Files:**'') block
                     then error (''Task '' @ task_id @ '' missing `**Files:**` section'') loc report4
                     else report4)
      in (report5, edges1))"

definition check_plan_tasks ::
  "nat \<Rightarrow> string \<Rightarrow> string list \<Rightarrow> task list \<Rightarrow> Report \<Rightarrow> Report outcome" where
  "check_plan_tasks frames plan_path task_ids tasks report =
     (if tasks = [] then
        Returns (error ''No task section found (`### Task N:`)'' plan_path report)
      else
        (case foldl (\<lambda>st task. check_task plan_path task_ids task st)
                (report, map (\<lambda>task_id. (task_id, [])) task_ids) tasks of
           (report1, edges) \<Rightarrow>
             (case detect_cycle frames task_ids edges of
                Returns cycle \<Rightarrow>
                  Returns (if truthy cycle
                           then error (''Task dependency cycle detected: '' @ join '' -> '' (the cycle))
                                  plan_path report1
                           else report1)
              | Raises e \<Rightarrow> Raises e
              | Diverges \<Rightarrow> Diverges)))"

definition example_tasks :: "task list" where
  "example_tasks =
     [(''1'', ''First task'', 8,
       [''### Task 1: First task'', '''', ''**Priority:** P0'', ''**Area:** backend'',
        ''**Depends On:** None'', ''**Acceptance Criteria:** It works'',
        ''**Review (Dev):** Manual review'', ''**Review (Regression):** Automated tests'',
        ''**Files:** src/main.py'', '''']),
      (''2'', ''Second task'', 18,
       [''### Task 2: Second task'', '''', ''**Priority:** P1'', ''**Area:** frontend'',
        ''**Depends On:** Task 2'', ''**Acceptance Criteria:** It renders'',
        ''**Review (Dev):** Manual review'', ''**Review (Regression):** Automated tests'',
        ''**Files:** src/ui.py''])]"

text \<open>
  Claim C7 on \<^verbatim>\<open>check_plan\<close>.  Task 2 of the plan below has \<^verbatim>\<open>**Depends On:** Task 2\<close>.
  The self reference is reported, and it is also an edge of the graph given to
  \<^verbatim>\<open>detect_cycle\<close>, which reports the cycle \<^verbatim>\<open>2 -> 2\<close> as a second ERROR, in either
  iteration order of the two task ids and whenever at least one frame is left for \<^verbatim>\<open>dfs\<close>.
\<close>

theorem plan_self_dependency_reports_cycle:
  "parse_depends (extract_field (snd (snd (snd (example_tasks ! 1)))) ''Depends On'') = [''2'']
   \<and> check_plan_tasks (Suc frames) ''plan.md'' [''1'', ''2''] example_tasks
       \<lparr>name = ''plan'', findings = []\<rparr>
     = Returns \<lparr>name = ''plan'', findings =
         [finding ''ERROR'' ''Task 2 cannot depend on itself'' ''plan.md:18'',
          finding ''ERROR'' ''Task dependency cycle detected: 2 -> 2'' ''plan.md'']\<rparr>
   \<and> check_plan_tasks (Suc frames) ''plan.md'' [''2'', ''1''] example_tasks
       \<lparr>name = ''plan'', findings = []\<rparr>
     = Returns \<lparr>name = ''plan'', findings =
         [finding ''ERROR'' ''Task 2 cannot depend on itself'' ''plan.md:18'',
          finding ''ERROR'' ''Task dependency cycle detected: 2 -> 2'' ''plan.md'']\<rparr>"
  by code_simp

subsection \<open>The edges of the issues validator\<close>

text \<open>
  \<^verbatim>\<open>check_issues\<close> does what claim C7 says: an entry that is the issue's own id or an id
  not in the issue map is reported and skipped with \<^verbatim>\<open>continue\<close>, so the adjacency lists
  given to \<^verbatim>\<open>detect_cycle\<close> hold neither.
\<close>

definition clean_edges :: "issue_map \<Rightarrow> edges \<Rightarrow> bool" where
  "clean_edges issue_map edges =
     (\<forall>k ds. map_of edges k = Some ds \<longrightarrow> (\<forall>d \<in> set ds. d \<noteq> k \<and> has_key issue_map d))"

lemma check_dep_clean:
  assumes "check_dep issue_map issue_id loc (report, edges) dep = Inr (report', edges')"
    and "clean_edges issue_map edges"
  shows "clean_edges issue_map edges'"
proof (cases "edges' = edges")
  case True
  with assms(2) show ?thesis by simp
next
  case False
  with assms(1) obtain dep_id deps where d: "dep = JStr dep_id" "dep_id \<noteq> issue_id"
    "has_key issue_map dep_id" "map_of edges issue_id = Some deps"
    "edges' = dict_set issue_id (deps @ [dep_id]) edges"
    unfolding check_dep_def
    by (auto split: json.splits if_splits option.splits)
  from assms(2) d(4) have "\<forall>x \<in> set deps. x \<noteq> issue_id \<and> has_key issue_map x"
    by (simp add: clean_edges_def)
  with d assms(2) show ?thesis
    unfolding clean_edges_def by (auto simp: map_of_dict_set)
qed

lemma check_deps_clean:
  "check_deps issue_map issue_id loc deps (report, edges) = Inr (report', edges') \<Longrightarrow>
   clean_edges issue_map edges \<Longrightarrow> clean_edges issue_map edges'"
proof (induction deps arbitrary: report edges)
  case Nil
  then show ?case by simp
next
  case (Cons dep deps)
  from Cons.prems(1) obtain r1 e1 where
    s1: "check_dep issue_map issue_id loc (report, edges) dep = Inr (r1, e1)"
    and rest: "check_deps issue_map issue_id loc deps (r1, e1) = Inr (report', edges')"
    by (auto split: sum.splits)
  from Cons.IH [OF rest check_dep_clean [OF s1 Cons.prems(2)]] show ?case .
qed

lemma check_dependencies_clean:
  "check_dependencies env issue_map items (report, edges) = Inr (report', edges') \<Longrightarrow>
   clean_edges issue_map edges \<Longrightarrow> clean_edges issue_map edges'"
proof (induction items arbitrary: report edges)
  case Nil
  then show ?case by simp
next
  case (Cons item items)
  obtain issue_id line_no issue where item: "item = (issue_id, line_no, issue)" by (cases item)
  show ?case
  proof (cases "dict_get_default issue ''depends_on'' (JList [])")
    case (JList depends_on)
    with Cons.prems(1) item obtain r1 e1 where
      s1: "check_deps issue_map issue_id (issues_path env @ '':'' @ str_int line_no) depends_on
             (report, edges) = Inr (r1, e1)"
      and rest: "check_dependencies env issue_map items (r1, e1) = Inr (report', edges')"
      by (auto split: sum.splits)
    from Cons.IH [OF rest check_deps_clean [OF s1 Cons.prems(2)]] show ?thesis .
  qed (use Cons.prems item Cons.IH in auto)
qed

lemma issue_edges_exclude_self_and_unknown:
  assumes "check_dependencies env issue_map issue_map
             (report, map (\<lambda>issue_id. (issue_id, [])) (map fst issue_map)) = Inr (report', edges)"
  shows "clean_edges issue_map edges"
proof (rule check_dependencies_clean [OF assms])
  show "clean_edges issue_map (map (\<lambda>issue_id. (issue_id, [])) (map fst issue_map))"
    unfolding clean_edges_def by (auto dest!: map_of_SomeD)
qed

end
